theory Spec2Isabelle
  imports Main "HOL-Library.Multiset"
begin

section \<open>The Attack Flow parser: data model\<close>

text \<open>
  A shallow embedding of \<^verbatim>\<open>class AttackFlowParser\<close>
  (\<^verbatim>\<open>js/parsers/attack-flow-parser.js\<close>). The parser reads a JSON document that
  is either a STIX bundle or an Attack Flow Builder (\<^verbatim>\<open>.afb\<close>) file, extracts
  its action, relationship, asset, condition and operator records, and builds a graph of
  action nodes and direct action-to-action edges.

  JavaScript objects are untyped; the embedding fixes the types that section 6 of the
  specification gives to the fields the parser reads: the document is an object whose
  \<^verbatim>\<open>objects\<close>, when present, is an array of objects, identifiers and tags are
  strings, and reference lists are arrays of strings. An absent field
  (\<^verbatim>\<open>undefined\<close>) is \<open>None\<close>, and so is the \<^verbatim>\<open>null\<close> that \<^verbatim>\<open>getProperty\<close>
  returns for a property that a builder object does not have. An \<^verbatim>\<open>id\<close> or
  \<^verbatim>\<open>instance\<close> that is present with the value \<^verbatim>\<open>null\<close> is outside the model (as a
  key of \<^verbatim>\<open>this.objects\<close> it reads \<^verbatim>\<open>"null"\<close>). Strings are byte strings, and the
  case conversions are the ASCII ones. Identifiers that name an inherited property of
  \<^verbatim>\<open>Object.prototype\<close> (such as \<^verbatim>\<open>constructor\<close>) are outside the model: the
  lookup tables \<^verbatim>\<open>this.objects\<close> and \<^verbatim>\<open>this.tacticMap\<close> are plain maps from
  strings. Left out are the calls of \<^verbatim>\<open>console\<close>, the constant \<^verbatim>\<open>type\<close> of a
  node, and the fields that the parser only copies and never reads
  (\<^verbatim>\<open>technique_ref\<close>, \<^verbatim>\<open>tactic_ref\<close>, \<^verbatim>\<open>execution_end\<close>, \<^verbatim>\<open>ttp\<close>,
  \<^verbatim>\<open>stix_type\<close>, \<^verbatim>\<open>external_references\<close>).
\<close>

subsection \<open>Input objects\<close>

text \<open>
  One record for every element of \<^verbatim>\<open>data.objects\<close>, in either format. In a STIX
  bundle \<^verbatim>\<open>type\<close> is the kind tag and \<^verbatim>\<open>id\<close> the identifier; in the builder format
  \<^verbatim>\<open>id\<close> is the kind tag and \<^verbatim>\<open>instance\<close> the identifier. A kill chain phase is
  represented by its \<^verbatim>\<open>phase_name\<close>; a property list holds \<^verbatim>\<open>[key, value]\<close> pairs
  with string values (the one-level flattening of a nested property list by
  \<^verbatim>\<open>getProperty\<close> is not modelled: no operation reads a nested value).
\<close>

record jsobj =
  o_type :: "string option"
  o_id :: "string option"
  o_instance :: "string option"
  o_name :: "string option"
  o_description :: "string option"
  o_scope :: "string option"
  o_created :: "string option"
  o_modified :: "string option"
  o_author :: "string option"
  o_technique_id :: "string option"
  o_tactic_id :: "string option"
  o_confidence :: "string option"
  o_execution_start :: "string option"
  o_kill_chain_phases :: "string list option"
  o_effect_refs :: "string list option"
  o_on_true_refs :: "string list option"
  o_on_false_refs :: "string list option"
  o_start_refs :: "string list option"
  o_source_ref :: "string option"
  o_target_ref :: "string option"
  o_properties :: "(string \<times> string) list option"
  o_source :: "string option"
  o_target :: "string option"

definition emptyObj :: jsobj where
  "emptyObj = \<lparr>o_type = None, o_id = None, o_instance = None, o_name = None,
     o_description = None, o_scope = None, o_created = None, o_modified = None,
     o_author = None, o_technique_id = None, o_tactic_id = None, o_confidence = None,
     o_execution_start = None, o_kill_chain_phases = None, o_effect_refs = None,
     o_on_true_refs = None, o_on_false_refs = None, o_start_refs = None,
     o_source_ref = None, o_target_ref = None, o_properties = None,
     o_source = None, o_target = None\<rparr>"

text \<open>The top-level document: \<^verbatim>\<open>data.type\<close>, \<^verbatim>\<open>data.schema\<close>, \<^verbatim>\<open>data.objects\<close>.\<close>

record document =
  d_type :: "string option"
  d_schema :: "string option"
  d_objects :: "jsobj list option"

subsection \<open>Graph, parser state, errors\<close>

record node =
  n_id :: "string option"
  n_technique_id :: "string option"
  n_tactic_id :: "string option"
  n_tactic_name :: string
  n_name :: "string option"
  n_description :: "string option"
  n_created :: "string option"
  n_modified :: "string option"
  n_confidence :: string
  n_execution_start :: "string option"
  n_sequence :: nat
  n_children :: "string option list"
  n_kill_chain_phases :: "string list option"

record edge =
  source :: "string option"
  target :: "string option"

record graph =
  nodes :: "node list"
  edges :: "edge list"

datatype format = AttackFlow | AFB

text \<open>The two \<^verbatim>\<open>throw new Error(...)\<close> of \<^verbatim>\<open>detectFormat\<close>.\<close>

datatype error = NoAttackFlowObjects | UnknownFormat

record parser =
  rawData :: document
  format :: format
  objects :: "string \<rightharpoonup> jsobj"
  attackFlow :: "jsobj option"
  actions :: "jsobj list"
  relationships :: "jsobj list"
  assets :: "jsobj list"
  conditions :: "jsobj list"
  operators :: "jsobj list"
  graph :: graph

record metadata =
  m_name :: "string option"
  m_description :: "string option"
  m_scope :: "string option"
  m_created :: "string option"
  m_modified :: "string option"
  m_author :: "string option"
  m_format :: format
  actionCount :: nat
  relationshipCount :: nat

subsection \<open>JavaScript conventions\<close>

text \<open>A string is truthy when it is present and not empty.\<close>

definition truthy :: "string option \<Rightarrow> bool" where
  "truthy v = (case v of None \<Rightarrow> False | Some s \<Rightarrow> s \<noteq> [])"

text \<open>\<^verbatim>\<open>a || b\<close> on optional strings.\<close>

definition js_or :: "string option \<Rightarrow> string option \<Rightarrow> string option" where
  "js_or a b = (if truthy a then a else b)"

text \<open>
  A property key of a plain object is a string: \<^verbatim>\<open>this.objects[undefined]\<close>
  reads and writes the key \<^verbatim>\<open>"undefined"\<close>.
\<close>

definition key :: "string option \<Rightarrow> string" where
  "key v = (case v of None \<Rightarrow> ''undefined'' | Some s \<Rightarrow> s)"

definition has_type :: "string \<Rightarrow> jsobj \<Rightarrow> bool" where
  "has_type t obj = (o_type obj = Some t)"

definition has_tag :: "string \<Rightarrow> jsobj \<Rightarrow> bool" where
  "has_tag t obj = (o_id obj = Some t)"

section \<open>Format detection and field extraction\<close>

definition objs_of :: "document \<Rightarrow> jsobj list" where
  "objs_of data = (case d_objects data of None \<Rightarrow> [] | Some objs \<Rightarrow> objs)"

text \<open>
  \<^verbatim>\<open>detectFormat\<close>: an array is truthy even when empty, so \<^verbatim>\<open>data.objects\<close> only
  has to be present. The first branch throws by itself: a bundle without a marker object
  never reaches the builder-format test.
\<close>

definition detectFormat :: "document \<Rightarrow> error + format" where
  "detectFormat data =
     (if d_type data = Some ''bundle'' \<and> d_objects data \<noteq> None then
        (let hasAttackFlow = list_ex (has_type ''attack-flow'') (objs_of data);
             hasAttackAction = list_ex (has_type ''attack-action'') (objs_of data)
         in if hasAttackFlow \<or> hasAttackAction then Inr AttackFlow
            else Inl NoAttackFlowObjects)
      else if truthy (d_schema data) \<and> d_objects data \<noteq> None then Inr AFB
      else Inl UnknownFormat)"

text \<open>The state the constructor sets up before it calls \<^verbatim>\<open>parse\<close>.\<close>

definition init_parser :: "document \<Rightarrow> format \<Rightarrow> parser" where
  "init_parser data fmt =
     \<lparr>rawData = data, format = fmt, objects = Map.empty, attackFlow = None,
      actions = [], relationships = [], assets = [], conditions = [], operators = [],
      graph = \<lparr>nodes = [], edges = []\<rparr>\<rparr>"

text \<open>The body of the second \<^verbatim>\<open>forEach\<close> of \<^verbatim>\<open>parseAttackFlow\<close>.\<close>

definition parseAttackFlow_step :: "jsobj \<Rightarrow> parser \<Rightarrow> parser" where
  "parseAttackFlow_step obj p =
     (let p1 = p\<lparr>objects := (objects p)(key (o_id obj) \<mapsto> obj)\<rparr>
      in if has_type ''attack-flow'' obj then p1\<lparr>attackFlow := Some obj\<rparr>
         else if has_type ''attack-action'' obj then p1\<lparr>actions := actions p1 @ [obj]\<rparr>
         else if has_type ''relationship'' obj then
           p1\<lparr>relationships := relationships p1 @ [obj]\<rparr>
         else if has_type ''attack-asset'' obj then p1\<lparr>assets := assets p1 @ [obj]\<rparr>
         else if has_type ''attack-condition'' obj then
           p1\<lparr>conditions := conditions p1 @ [obj]\<rparr>
         else if has_type ''attack-operator'' obj then
           p1\<lparr>operators := operators p1 @ [obj]\<rparr>
         else p1)"

definition parseAttackFlow :: "parser \<Rightarrow> parser" where
  "parseAttackFlow p = fold parseAttackFlow_step (objs_of (rawData p)) p"

text \<open>
  \<^verbatim>\<open>getProperty\<close>: the value of the first \<^verbatim>\<open>[key, value]\<close> pair with the key, or
  \<^verbatim>\<open>null\<close>.
\<close>

definition getProperty :: "(string \<times> string) list option \<Rightarrow> string \<Rightarrow> string option" where
  "getProperty properties k =
     (case properties of None \<Rightarrow> None | Some ps \<Rightarrow> map_of ps k)"

text \<open>The flow object that \<^verbatim>\<open>parseAFB\<close> builds from the \<^verbatim>\<open>flow\<close>-tagged object.\<close>

definition afb_flow :: "jsobj \<Rightarrow> jsobj" where
  "afb_flow flowObj =
     emptyObj\<lparr>o_name := getProperty (o_properties flowObj) ''name'',
       o_description := getProperty (o_properties flowObj) ''description'',
       o_scope := getProperty (o_properties flowObj) ''scope'',
       o_created := getProperty (o_properties flowObj) ''created'',
       o_modified := getProperty (o_properties flowObj) ''modified'',
       o_author := getProperty (o_properties flowObj) ''author''\<rparr>"

definition afb_action :: "jsobj \<Rightarrow> jsobj" where
  "afb_action obj =
     emptyObj\<lparr>o_id := o_instance obj, o_type := Some ''attack-action'',
       o_name := getProperty (o_properties obj) ''name'',
       o_description := getProperty (o_properties obj) ''description'',
       o_technique_id := getProperty (o_properties obj) ''technique_id'',
       o_tactic_id := getProperty (o_properties obj) ''tactic_id'',
       o_confidence := getProperty (o_properties obj) ''confidence'',
       o_execution_start := getProperty (o_properties obj) ''execution_start'',
       o_instance := o_instance obj\<rparr>"

definition afb_asset :: "jsobj \<Rightarrow> jsobj" where
  "afb_asset obj =
     emptyObj\<lparr>o_id := o_instance obj, o_type := Some ''attack-asset'',
       o_name := getProperty (o_properties obj) ''name'',
       o_description := getProperty (o_properties obj) ''description''\<rparr>"

text \<open>First pass of \<^verbatim>\<open>parseAFB\<close>: actions and assets.\<close>

definition parseAFB_object :: "jsobj \<Rightarrow> parser \<Rightarrow> parser" where
  "parseAFB_object obj p =
     (if has_tag ''action'' obj then
        p\<lparr>actions := actions p @ [afb_action obj],
          objects := (objects p)(key (o_instance obj) \<mapsto> afb_action obj)\<rparr>
      else if has_tag ''asset'' obj then
        p\<lparr>assets := assets p @ [afb_asset obj],
          objects := (objects p)(key (o_instance obj) \<mapsto> afb_asset obj)\<rparr>
      else p)"

text \<open>Second pass of \<^verbatim>\<open>parseAFB\<close>: connectors with a source and a target.\<close>

definition afb_relationship :: "jsobj \<Rightarrow> jsobj" where
  "afb_relationship obj =
     emptyObj\<lparr>o_source := o_source obj, o_target := o_target obj, o_type := o_id obj\<rparr>"

definition parseAFB_line :: "jsobj \<Rightarrow> parser \<Rightarrow> parser" where
  "parseAFB_line obj p =
     (if has_tag ''dynamic_line'' obj \<or> has_tag ''line'' obj then
        (if truthy (o_source obj) \<and> truthy (o_target obj) then
           p\<lparr>relationships := relationships p @ [afb_relationship obj]\<rparr>
         else p)
      else p)"

definition parseAFB :: "parser \<Rightarrow> parser" where
  "parseAFB p =
     (let objs = objs_of (rawData p);
          p1 = (case find (has_tag ''flow'') objs of
                  None \<Rightarrow> p
                | Some flowObj \<Rightarrow> p\<lparr>attackFlow := Some (afb_flow flowObj)\<rparr>);
          p2 = fold parseAFB_object objs p1
      in fold parseAFB_line objs p2)"

section \<open>Graph resolver\<close>

subsection \<open>Tactic resolution\<close>

text \<open>\<^verbatim>\<open>this.tacticMap\<close>, in the order of the object literal (the order of
  \<^verbatim>\<open>Object.entries\<close>).\<close>

definition tacticMap :: "(string \<times> string) list" where
  "tacticMap =
     [(''TA0043'', ''Reconnaissance''), (''TA0042'', ''Resource Development''),
      (''TA0001'', ''Initial Access''), (''TA0002'', ''Execution''),
      (''TA0003'', ''Persistence''), (''TA0004'', ''Privilege Escalation''),
      (''TA0005'', ''Defense Evasion''), (''TA0006'', ''Credential Access''),
      (''TA0007'', ''Discovery''), (''TA0008'', ''Lateral Movement''),
      (''TA0009'', ''Collection''), (''TA0011'', ''Command and Control''),
      (''TA0010'', ''Exfiltration''), (''TA0040'', ''Impact''),
      (''TA0027'', ''Initial Access''), (''TA0041'', ''Execution''),
      (''TA0028'', ''Persistence''), (''TA0029'', ''Privilege Escalation''),
      (''TA0030'', ''Defense Evasion''), (''TA0031'', ''Credential Access''),
      (''TA0032'', ''Discovery''), (''TA0033'', ''Lateral Movement''),
      (''TA0035'', ''Collection''), (''TA0037'', ''Command and Control''),
      (''TA0036'', ''Exfiltration''), (''TA0034'', ''Impact''),
      (''TA0108'', ''Initial Access''), (''TA0104'', ''Execution''),
      (''TA0110'', ''Persistence''), (''TA0111'', ''Privilege Escalation''),
      (''TA0103'', ''Evasion''), (''TA0102'', ''Discovery''),
      (''TA0109'', ''Lateral Movement''), (''TA0100'', ''Collection''),
      (''TA0101'', ''Command and Control''), (''TA0107'', ''Inhibit Response Function''),
      (''TA0106'', ''Impair Process Control''), (''TA0105'', ''Impact'')]"

text \<open>ASCII case conversion of one character.\<close>

definition toUpperCase_char :: "char \<Rightarrow> char" where
  "toUpperCase_char c =
     (let n = (of_char c :: nat) in if 97 \<le> n \<and> n \<le> 122 then char_of (n - 32) else c)"

definition toLowerCase_char :: "char \<Rightarrow> char" where
  "toLowerCase_char c =
     (let n = (of_char c :: nat) in if 65 \<le> n \<and> n \<le> 90 then char_of (n + 32) else c)"

definition toLowerCase :: "string \<Rightarrow> string" where
  "toLowerCase s = map toLowerCase_char s"

text \<open>\<^verbatim>\<open>s.split(c)\<close>: always at least one piece; \<^verbatim>\<open>"".split("-")\<close> is \<^verbatim>\<open>[""]\<close>.\<close>

fun js_split :: "char \<Rightarrow> string \<Rightarrow> string list" where
  "js_split c [] = [[]]"
| "js_split c (x # xs) =
     (if x = c then [] # js_split c xs
      else (case js_split c xs of [] \<Rightarrow> [[x]] | w # ws \<Rightarrow> (x # w) # ws))"

fun js_join :: "string \<Rightarrow> string list \<Rightarrow> string" where
  "js_join sep [] = []"
| "js_join sep [w] = w"
| "js_join sep (w # ws) = w @ sep @ js_join sep ws"

text \<open>\<^verbatim>\<open>w.charAt(0).toUpperCase() + w.slice(1)\<close>.\<close>

definition capitalize :: "string \<Rightarrow> string" where
  "capitalize w = (case w of [] \<Rightarrow> [] | c # cs \<Rightarrow> toUpperCase_char c # cs)"

definition titleCase :: "string \<Rightarrow> string" where
  "titleCase phaseName = js_join '' '' (map capitalize (js_split CHR ''-'' phaseName))"

text \<open>
  The tactic name and tactic id that \<^verbatim>\<open>buildGraph\<close> computes for an action: first the
  table lookup of \<^verbatim>\<open>tactic_id\<close> with the default \<^verbatim>\<open>'Unknown'\<close>; then, when
  \<^verbatim>\<open>kill_chain_phases\<close> is present and not empty, both are overwritten from the first
  phase (the id only when a table name matches, the first match winning). An absent
  \<^verbatim>\<open>tactic_id\<close> looks up a key that the table does not have.
\<close>

definition resolveTactic :: "jsobj \<Rightarrow> string \<times> string option" where
  "resolveTactic action =
     (let tacticName = (case map_of tacticMap (key (o_tactic_id action)) of
                          Some tname \<Rightarrow> tname | None \<Rightarrow> ''Unknown'');
          tacticId = o_tactic_id action
      in case o_kill_chain_phases action of
           Some (phaseName # rest) \<Rightarrow>
             (let tacticName' = titleCase phaseName
              in (tacticName',
                  case find (\<lambda>(tid, tname). toLowerCase tname = toLowerCase tacticName')
                         tacticMap of
                    Some (tid, tname) \<Rightarrow> Some tid
                  | None \<Rightarrow> tacticId))
         | _ \<Rightarrow> (tacticName, tacticId))"

subsection \<open>Nodes\<close>

definition mkNode :: "jsobj \<Rightarrow> nat \<Rightarrow> node" where
  "mkNode action index =
     \<lparr>n_id = js_or (o_id action) (o_instance action),
      n_technique_id = o_technique_id action,
      n_tactic_id = snd (resolveTactic action),
      n_tactic_name = fst (resolveTactic action),
      n_name = o_name action,
      n_description = o_description action,
      n_created = o_created action,
      n_modified = o_modified action,
      n_confidence = (case o_confidence action of
                        None \<Rightarrow> ''certain''
                      | Some c \<Rightarrow> if c \<noteq> [] then c else ''certain''),
      n_execution_start = o_execution_start action,
      n_sequence = index,
      n_children = [],
      n_kill_chain_phases = o_kill_chain_phases action\<rparr>"

definition buildNodes :: "jsobj list \<Rightarrow> node list" where
  "buildNodes as = map (\<lambda>(index, action). mkNode action index) (enumerate 0 as)"

text \<open>
  \<^verbatim>\<open>nodeMap\<close> maps a node id to the node object; the model maps it to the node's
  position in \<^verbatim>\<open>nodes\<close>, so that \<^verbatim>\<open>source.children.push\<close> updates the node in
  the list. A later node with the same id replaces an earlier one, as \<^verbatim>\<open>Map.set\<close>
  does.
\<close>

type_synonym nodeMap = "string option \<rightharpoonup> nat"

definition buildNodeMap :: "node list \<Rightarrow> nodeMap" where
  "buildNodeMap ns = fold (\<lambda>(i, n) m. m(n_id n \<mapsto> i)) (enumerate 0 ns) Map.empty"

subsection \<open>Edges\<close>

text \<open>\<^verbatim>\<open>if (!source.children.includes(t)) source.children.push(t)\<close> on node \<open>i\<close>.\<close>

definition addChild :: "nat \<Rightarrow> string option \<Rightarrow> node list \<Rightarrow> node list" where
  "addChild i t ns =
     (if t \<in> set (n_children (ns ! i)) then ns
      else ns[i := (ns ! i)\<lparr>n_children := n_children (ns ! i) @ [t]\<rparr>])"

text \<open>The \<^verbatim>\<open>attack-action\<close> branch of \<^verbatim>\<open>followEffectChain\<close>.\<close>

definition pushEdge :: "nodeMap \<Rightarrow> string option \<Rightarrow> string option \<Rightarrow> graph \<Rightarrow> graph" where
  "pushEdge nm s t g =
     (case (nm s, nm t) of
        (Some i, Some j) \<Rightarrow>
          g\<lparr>edges := edges g @ [\<lparr>source = s, target = t\<rparr>], nodes := addChild i t (nodes g)\<rparr>
      | _ \<Rightarrow> g)"

text \<open>
  The loop body of \<^verbatim>\<open>buildAttackFlowEdges\<close> (with \<^verbatim>\<open>source_ref\<close>,
  \<^verbatim>\<open>target_ref\<close>) and of \<^verbatim>\<open>buildAFBEdges\<close> (with \<^verbatim>\<open>source\<close>, \<^verbatim>\<open>target\<close>):
  the edge carries the ids of the nodes found. The positions that \<^verbatim>\<open>nodeMap\<close> holds
  are positions of \<^verbatim>\<open>nodes\<close> (lemma \<open>buildNodeMap_ok\<close>), so \<open>nodes g ! i\<close> is the
  node that \<^verbatim>\<open>nodeMap.get\<close> returns.
\<close>

definition relEdge :: "nodeMap \<Rightarrow> string option \<Rightarrow> string option \<Rightarrow> graph \<Rightarrow> graph" where
  "relEdge nm sref tref g =
     (case (nm sref, nm tref) of
        (Some i, Some j) \<Rightarrow>
          g\<lparr>edges := edges g @ [\<lparr>source = n_id (nodes g ! i), target = n_id (nodes g ! j)\<rparr>],
            nodes := addChild i (n_id (nodes g ! j)) (nodes g)\<rparr>
      | _ \<Rightarrow> g)"

text \<open>\<^verbatim>\<open>xs.forEach(f)\<close> for a callback that may not return.\<close>

fun forEachOpt :: "('a \<Rightarrow> 's \<Rightarrow> 's option) \<Rightarrow> 'a list \<Rightarrow> 's \<Rightarrow> 's option" where
  "forEachOpt f [] s = Some s"
| "forEachOpt f (x # xs) s = (case f x s of None \<Rightarrow> None | Some s' \<Rightarrow> forEachOpt f xs s')"

text \<open>
  \<^verbatim>\<open>followEffectChain\<close>. The source recursion has no bound; the first argument is
  the number of nested calls allowed, and \<open>None\<close> says that they did not suffice. A
  document on which no bound suffices is one on which the source recursion does not end
  (a JavaScript engine stops it with a stack overflow \<^verbatim>\<open>RangeError\<close>, which aborts the
  constructor). The test \<^verbatim>\<open>if (!effectNode)\<close> at the head of the function never
  fires: every caller passes an object it found in \<^verbatim>\<open>this.objects\<close>.
\<close>

fun followEffectChain ::
  "nat \<Rightarrow> (string \<rightharpoonup> jsobj) \<Rightarrow> nodeMap \<Rightarrow> string option \<Rightarrow> jsobj \<Rightarrow> graph \<Rightarrow> graph option" where
  "followEffectChain 0 objs nm sourceId effectNode g = None"
| "followEffectChain (Suc n) objs nm sourceId effectNode g =
     (let follow = (\<lambda>ref g'. case objs ref of
                       None \<Rightarrow> Some g'
                     | Some nextNode \<Rightarrow> followEffectChain n objs nm sourceId nextNode g')
      in if has_type ''attack-condition'' effectNode then
           (case (case o_on_true_refs effectNode of
                    None \<Rightarrow> Some g | Some refs \<Rightarrow> forEachOpt follow refs g) of
              None \<Rightarrow> None
            | Some g1 \<Rightarrow>
                (case o_on_false_refs effectNode of
                   None \<Rightarrow> Some g1 | Some refs \<Rightarrow> forEachOpt follow refs g1))
         else if has_type ''attack-operator'' effectNode then
           (case o_effect_refs effectNode of
              None \<Rightarrow> Some g | Some refs \<Rightarrow> forEachOpt follow refs g)
         else if has_type ''attack-action'' effectNode then
           Some (pushEdge nm sourceId (o_id effectNode) g)
         else Some g)"

text \<open>The first loop of \<^verbatim>\<open>buildAttackFlowEdges\<close>, for one action.\<close>

definition actionEffects ::
  "nat \<Rightarrow> (string \<rightharpoonup> jsobj) \<Rightarrow> nodeMap \<Rightarrow> jsobj \<Rightarrow> graph \<Rightarrow> graph option" where
  "actionEffects n objs nm action g =
     (case o_effect_refs action of
        None \<Rightarrow> Some g
      | Some refs \<Rightarrow>
          forEachOpt (\<lambda>effectRef g'. case objs effectRef of
                         None \<Rightarrow> Some g'
                       | Some effectNode \<Rightarrow>
                           followEffectChain n objs nm (o_id action) effectNode g')
            refs g)"

definition buildAttackFlowEdges :: "nat \<Rightarrow> parser \<Rightarrow> nodeMap \<Rightarrow> graph \<Rightarrow> graph option" where
  "buildAttackFlowEdges n p nm g =
     (case forEachOpt (actionEffects n (objects p) nm) (actions p) g of
        None \<Rightarrow> None
      | Some g1 \<Rightarrow>
          Some (fold (\<lambda>rel. relEdge nm (o_source_ref rel) (o_target_ref rel))
                  (relationships p) g1))"

definition buildAFBEdges :: "parser \<Rightarrow> nodeMap \<Rightarrow> graph \<Rightarrow> graph" where
  "buildAFBEdges p nm g =
     fold (\<lambda>rel. relEdge nm (o_source rel) (o_target rel)) (relationships p) g"

definition buildGraph :: "nat \<Rightarrow> parser \<Rightarrow> parser option" where
  "buildGraph n p =
     (let ns = buildNodes (actions p);
          nm = buildNodeMap ns;
          g0 = \<lparr>nodes = ns, edges = []\<rparr>
      in case (case format p of
                 AttackFlow \<Rightarrow> buildAttackFlowEdges n p nm g0
               | AFB \<Rightarrow> Some (buildAFBEdges p nm g0)) of
           None \<Rightarrow> None
         | Some g \<Rightarrow> Some (p\<lparr>graph := g\<rparr>))"

definition parse :: "nat \<Rightarrow> parser \<Rightarrow> parser option" where
  "parse n p =
     buildGraph n (case format p of AttackFlow \<Rightarrow> parseAttackFlow p | AFB \<Rightarrow> parseAFB p)"

text \<open>
  The constructor \<^verbatim>\<open>new AttackFlowParser(data)\<close>: \<open>Some (Inl e)\<close> when
  \<^verbatim>\<open>detectFormat\<close> throws, \<open>Some (Inr p)\<close> when it returns the parser \<open>p\<close>, \<open>None\<close>
  when \<open>n\<close> nested calls of \<^verbatim>\<open>followEffectChain\<close> did not suffice.
\<close>

definition new_parser :: "nat \<Rightarrow> document \<Rightarrow> (error + parser) option" where
  "new_parser n data =
     (case detectFormat data of
        Inl e \<Rightarrow> Some (Inl e)
      | Inr fmt \<Rightarrow>
          (case parse n (init_parser data fmt) of
             None \<Rightarrow> None
           | Some p \<Rightarrow> Some (Inr p)))"

section \<open>Sequencing and queries\<close>

subsection \<open>getActionSequence\<close>

text \<open>
  The two local variables of \<^verbatim>\<open>getActionSequence\<close> that \<^verbatim>\<open>visit\<close> updates.
  \<^verbatim>\<open>sequence\<close> may hold \<^verbatim>\<open>undefined\<close> (here \<open>None\<close>): \<^verbatim>\<open>visit\<close> prepends
  \<^verbatim>\<open>nodeMap.get(nodeId)\<close> whether or not the id is that of a node.
\<close>

record vstate =
  visited :: "string option set"
  sequence :: "node option list"

text \<open>
  \<^verbatim>\<open>new Map(this.graph.nodes.map(n => [n.id, n]))\<close>: of two nodes with one id the
  later one is kept.
\<close>

definition seqNodeMap :: "node list \<Rightarrow> (string option \<rightharpoonup> node)" where
  "seqNodeMap ns = map_of (rev (map (\<lambda>n. (n_id n, n)) ns))"

text \<open>
  \<^verbatim>\<open>visit\<close>, with the number of nested calls allowed as first argument (\<open>None\<close>:
  they did not suffice).
\<close>

fun visit ::
  "nat \<Rightarrow> (string option \<rightharpoonup> node) \<Rightarrow> string option \<Rightarrow> vstate \<Rightarrow> vstate option" where
  "visit 0 nm nodeId st = None"
| "visit (Suc k) nm nodeId st =
     (if nodeId \<in> visited st then Some st
      else
        (let st1 = st\<lparr>visited := insert nodeId (visited st)\<rparr>
         in case nm nodeId of
              None \<Rightarrow> Some (st1\<lparr>sequence := None # sequence st1\<rparr>)
            | Some node \<Rightarrow>
                (case forEachOpt (visit k nm) (n_children node) st1 of
                   None \<Rightarrow> None
                 | Some st2 \<Rightarrow> Some (st2\<lparr>sequence := Some node # sequence st2\<rparr>))))"

text \<open>\<^verbatim>\<open>sequence.filter(n => n !== undefined)\<close>.\<close>

fun defined :: "'a option list \<Rightarrow> 'a list" where
  "defined [] = []"
| "defined (None # xs) = defined xs"
| "defined (Some x # xs) = x # defined xs"

text \<open>The three phases of \<^verbatim>\<open>getActionSequence\<close>, each a \<^verbatim>\<open>forEach\<close>.\<close>

definition visitStartRefs ::
  "nat \<Rightarrow> parser \<Rightarrow> (string option \<rightharpoonup> node) \<Rightarrow> vstate \<Rightarrow> vstate option" where
  "visitStartRefs k p nm st =
     (case attackFlow p of
        None \<Rightarrow> Some st
      | Some flow \<Rightarrow>
          (case o_start_refs flow of
             None \<Rightarrow> Some st
           | Some refs \<Rightarrow>
               forEachOpt (\<lambda>startRef st'. case objects p startRef of
                              None \<Rightarrow> Some st'
                            | Some startNode \<Rightarrow>
                                if has_type ''attack-action'' startNode
                                then visit k nm (Some startRef) st'
                                else Some st')
                 refs st))"

definition visitRoots ::
  "nat \<Rightarrow> parser \<Rightarrow> (string option \<rightharpoonup> node) \<Rightarrow> vstate \<Rightarrow> vstate option" where
  "visitRoots k p nm st =
     (if format p = AFB \<or> sequence st = [] then
        (let nodesWithIncoming = target ` set (edges (graph p));
             startNodes = filter (\<lambda>n. n_id n \<notin> nodesWithIncoming) (nodes (graph p))
         in forEachOpt (\<lambda>node. visit k nm (n_id node)) startNodes st)
      else Some st)"

definition visitRemaining ::
  "nat \<Rightarrow> parser \<Rightarrow> (string option \<rightharpoonup> node) \<Rightarrow> vstate \<Rightarrow> vstate option" where
  "visitRemaining k p nm st =
     forEachOpt (\<lambda>node st'. if n_id node \<notin> visited st' then visit k nm (n_id node) st'
                            else Some st')
       (nodes (graph p)) st"

definition getActionSequence :: "nat \<Rightarrow> parser \<Rightarrow> node list option" where
  "getActionSequence k p =
     (let nm = seqNodeMap (nodes (graph p))
      in case visitStartRefs k p nm \<lparr>visited = {}, sequence = []\<rparr> of
           None \<Rightarrow> None
         | Some st1 \<Rightarrow>
             (case visitRoots k p nm st1 of
                None \<Rightarrow> None
              | Some st2 \<Rightarrow>
                  (case visitRemaining k p nm st2 of
                     None \<Rightarrow> None
                   | Some st3 \<Rightarrow> Some (defined (sequence st3)))))"

subsection \<open>getTactics\<close>

text \<open>\<^verbatim>\<open>inferTactic\<close>: a guess from the second character of the technique id.\<close>

definition inferTable :: "(char \<times> string) list" where
  "inferTable =
     [(CHR ''0'', ''Initial Access''), (CHR ''1'', ''Execution''),
      (CHR ''2'', ''Persistence''), (CHR ''3'', ''Privilege Escalation''),
      (CHR ''4'', ''Defense Evasion''), (CHR ''5'', ''Credential Access''),
      (CHR ''6'', ''Discovery''), (CHR ''7'', ''Lateral Movement''),
      (CHR ''8'', ''Collection''), (CHR ''9'', ''Exfiltration'')]"

definition inferTactic :: "string option \<Rightarrow> string" where
  "inferTactic techniqueId =
     (if \<not> truthy techniqueId then ''Unknown''
      else (case key techniqueId of
              c0 # firstChar # rest \<Rightarrow>
                (case map_of inferTable firstChar of
                   Some t \<Rightarrow> t | None \<Rightarrow> ''Unknown'')
            | _ \<Rightarrow> ''Unknown''))"

text \<open>\<^verbatim>\<open>node.tactic_name || this.inferTactic(node.technique_id)\<close>.\<close>

definition tacticKey :: "node \<Rightarrow> string" where
  "tacticKey node =
     (if n_tactic_name node \<noteq> [] then n_tactic_name node
      else inferTactic (n_technique_id node))"

text \<open>
  The result of \<^verbatim>\<open>getTactics\<close> is a \<^verbatim>\<open>Map\<close> from tactic name to a list of nodes;
  its entries are kept in insertion order, as a \<^verbatim>\<open>Map\<close> iterates them.
  \<open>tacticsPush\<close> is the body of the \<^verbatim>\<open>if (node.technique_id)\<close>.
\<close>

definition tacticsPush :: "string \<Rightarrow> node \<Rightarrow> (string \<times> node list) list \<Rightarrow> (string \<times> node list) list" where
  "tacticsPush tacticName node tactics =
     (let tactics1 = (if map_of tactics tacticName = None then tactics @ [(tacticName, [])]
                      else tactics)
      in map (\<lambda>(k, ns). if k = tacticName then (k, ns @ [node]) else (k, ns)) tactics1)"

definition getTactics_step :: "node \<Rightarrow> (string \<times> node list) list \<Rightarrow> (string \<times> node list) list" where
  "getTactics_step node tactics =
     (if truthy (n_technique_id node) then tacticsPush (tacticKey node) node tactics
      else tactics)"

definition getTactics :: "parser \<Rightarrow> (string \<times> node list) list" where
  "getTactics p = fold getTactics_step (nodes (graph p)) []"

subsection \<open>getFlowMetadata\<close>

definition getFlowMetadata :: "parser \<Rightarrow> metadata option" where
  "getFlowMetadata p =
     (case attackFlow p of
        None \<Rightarrow> None
      | Some flow \<Rightarrow>
          Some \<lparr>m_name = o_name flow, m_description = o_description flow,
                m_scope = o_scope flow, m_created = o_created flow,
                m_modified = o_modified flow, m_author = o_author flow,
                m_format = format p, actionCount = length (actions p),
                relationshipCount = length (relationships p)\<rparr>)"

section \<open>Notions used in the statements\<close>

text \<open>
  The two shapes that \<^verbatim>\<open>detectFormat\<close> tests for, and the marker objects of a
  bundle.
\<close>

definition bundle_shaped :: "document \<Rightarrow> bool" where
  "bundle_shaped data = (d_type data = Some ''bundle'' \<and> d_objects data \<noteq> None)"

definition builder_shaped :: "document \<Rightarrow> bool" where
  "builder_shaped data = (truthy (d_schema data) \<and> d_objects data \<noteq> None)"

definition has_marker :: "document \<Rightarrow> bool" where
  "has_marker data =
     (list_ex (has_type ''attack-flow'') (objs_of data)
      \<or> list_ex (has_type ''attack-action'') (objs_of data))"

text \<open>The parser that a constructor call returned, if it returned one.\<close>

definition built :: "(error + parser) option \<Rightarrow> parser option" where
  "built r = (case r of Some (Inr p) \<Rightarrow> Some p | _ \<Rightarrow> None)"

text \<open>
  The objects of a document that each format reads as the flow object, as an action and
  as a relationship record. A builder connector becomes a relationship record only when
  its \<^verbatim>\<open>source\<close> and \<^verbatim>\<open>target\<close> are truthy.
\<close>

definition is_connector :: "jsobj \<Rightarrow> bool" where
  "is_connector obj =
     ((has_tag ''dynamic_line'' obj \<or> has_tag ''line'' obj)
      \<and> truthy (o_source obj) \<and> truthy (o_target obj))"

definition is_flow :: "format \<Rightarrow> jsobj \<Rightarrow> bool" where
  "is_flow fmt = (case fmt of AttackFlow \<Rightarrow> has_type ''attack-flow'' | AFB \<Rightarrow> has_tag ''flow'')"

definition is_action :: "format \<Rightarrow> jsobj \<Rightarrow> bool" where
  "is_action fmt =
     (case fmt of AttackFlow \<Rightarrow> has_type ''attack-action'' | AFB \<Rightarrow> has_tag ''action'')"

definition is_relationship :: "format \<Rightarrow> jsobj \<Rightarrow> bool" where
  "is_relationship fmt =
     (case fmt of AttackFlow \<Rightarrow> has_type ''relationship'' | AFB \<Rightarrow> is_connector)"

text \<open>
  The nodes that \<^verbatim>\<open>getTactics\<close> files under a tactic name: those with a truthy
  \<^verbatim>\<open>technique_id\<close> whose key is that name, in the order of \<^verbatim>\<open>graph.nodes\<close>.
\<close>

definition grouped :: "string \<Rightarrow> node list \<Rightarrow> node list" where
  "grouped tacticName ns =
     filter (\<lambda>n. truthy (n_technique_id n) \<and> tacticKey n = tacticName) ns"

text \<open>The id that \<^verbatim>\<open>buildGraph\<close> gives the node of an action:
  \<^verbatim>\<open>action.id || action.instance\<close>.\<close>

definition actionId :: "jsobj \<Rightarrow> string option" where
  "actionId action = js_or (o_id action) (o_instance action)"

definition edgeOf :: "string option \<Rightarrow> string option \<Rightarrow> edge" where
  "edgeOf s t = \<lparr>source = s, target = t\<rparr>"

text \<open>
  The invariant of \<^verbatim>\<open>nodeMap\<close> (an id is mapped to the position of a node with that
  id), and what edge resolution may do to a graph: it keeps the ids of the nodes and
  appends edges between ids that \<^verbatim>\<open>nodeMap\<close> knows.
\<close>

definition nodeMap_ok :: "nodeMap \<Rightarrow> string option list \<Rightarrow> bool" where
  "nodeMap_ok nm ids = (\<forall>k i. nm k = Some i \<longrightarrow> i < length ids \<and> ids ! i = k)"

definition grows :: "nodeMap \<Rightarrow> graph \<Rightarrow> graph \<Rightarrow> bool" where
  "grows nm g g' =
     (map n_id (nodes g') = map n_id (nodes g)
      \<and> (\<exists>es. edges g' = edges g @ es
            \<and> (\<forall>e \<in> set es. nm (source e) \<noteq> None \<and> nm (target e) \<noteq> None)))"

text \<open>
  Builder format: the ids of the action objects, the connector tags, and a connector
  whose two endpoints are ids of actions.
\<close>

definition afb_action_ids :: "document \<Rightarrow> string option set" where
  "afb_action_ids data = set (map o_instance (filter (has_tag ''action'') (objs_of data)))"

definition is_line :: "jsobj \<Rightarrow> bool" where
  "is_line obj = (has_tag ''line'' obj \<or> has_tag ''dynamic_line'' obj)"

definition resolves :: "document \<Rightarrow> jsobj \<Rightarrow> bool" where
  "resolves data obj =
     (o_source obj \<in> afb_action_ids data \<and> o_target obj \<in> afb_action_ids data)"

text \<open>
  The references that \<^verbatim>\<open>followEffectChain\<close> follows from a routing node, and a
  bundle whose routing is well-founded: some rank decreases from every condition or
  operator to every object that one of its references names.
\<close>

definition routing_refs :: "jsobj \<Rightarrow> string list" where
  "routing_refs obj =
     (if has_type ''attack-condition'' obj then
        (case o_on_true_refs obj of None \<Rightarrow> [] | Some refs \<Rightarrow> refs)
        @ (case o_on_false_refs obj of None \<Rightarrow> [] | Some refs \<Rightarrow> refs)
      else if has_type ''attack-operator'' obj then
        (case o_effect_refs obj of None \<Rightarrow> [] | Some refs \<Rightarrow> refs)
      else [])"

definition ranked :: "(jsobj \<Rightarrow> nat) \<Rightarrow> jsobj list \<Rightarrow> bool" where
  "ranked rank objs =
     (\<forall>obj \<in> set objs. \<forall>r \<in> set (routing_refs obj). \<forall>nxt \<in> set objs.
        key (o_id nxt) = r \<longrightarrow> rank nxt < rank obj)"

text \<open>
  The table \<^verbatim>\<open>this.objects\<close> that \<^verbatim>\<open>parseAttackFlow\<close> fills from a bundle, and
  the \<^verbatim>\<open>attack-action\<close> objects of a bundle.
\<close>

definition objectTable :: "document \<Rightarrow> (string \<rightharpoonup> jsobj)" where
  "objectTable data = objects (parseAttackFlow (init_parser data AttackFlow))"

definition stixActions :: "document \<Rightarrow> jsobj list" where
  "stixActions data = filter (has_type ''attack-action'') (objs_of data)"

text \<open>The last node of a list that carries a given id.\<close>

definition lastWithId :: "node list \<Rightarrow> string option \<Rightarrow> node option" where
  "lastWithId ns i = find (\<lambda>n. n_id n = i) (rev ns)"

text \<open>
  Sequencing. \<open>nm_ids\<close>: a node map hands out, for an id, a node with that id.
  \<open>extends\<close>: what a call of \<^verbatim>\<open>visit\<close> does to the state, namely mark ids as
  visited and put in front of \<^verbatim>\<open>sequence\<close> the entries of the ids it marked, each
  node once. \<open>visit_like\<close>: a \<^verbatim>\<open>forEach\<close> callback that either leaves the state or
  calls \<^verbatim>\<open>visit\<close>.
\<close>

definition nm_ids :: "(string option \<rightharpoonup> node) \<Rightarrow> bool" where
  "nm_ids nm = (\<forall>k n. nm k = Some n \<longrightarrow> n_id n = k)"

definition extends :: "(string option \<rightharpoonup> node) \<Rightarrow> vstate \<Rightarrow> vstate \<Rightarrow> bool" where
  "extends nm st st' =
     (visited st \<subseteq> visited st'
      \<and> (\<exists>pre. sequence st' = pre @ sequence st
            \<and> distinct (map n_id (defined pre))
            \<and> set (defined pre) = {n. \<exists>k \<in> visited st' - visited st. nm k = Some n}))"

definition visit_like ::
  "nat \<Rightarrow> (string option \<rightharpoonup> node) \<Rightarrow> ('a \<Rightarrow> vstate \<Rightarrow> vstate option) \<Rightarrow> bool" where
  "visit_like k nm f = (\<forall>x st. f x st = Some st \<or> (\<exists>i. f x st = visit k nm i st))"

subsection \<open>Example documents\<close>

definition stix_action :: "string \<Rightarrow> jsobj" where
  "stix_action i = emptyObj\<lparr>o_type := Some ''attack-action'', o_id := Some i\<rparr>"

definition stix_bundle :: "jsobj list \<Rightarrow> document" where
  "stix_bundle objs = \<lparr>d_type = Some ''bundle'', d_schema = None, d_objects = Some objs\<rparr>"

text \<open>An action with the tactic id of Initial Access and the kill chain phase
  \<^verbatim>\<open>execution\<close>.\<close>

definition tactic_conflict_doc :: document where
  "tactic_conflict_doc =
     stix_bundle [(stix_action ''a'')\<lparr>o_tactic_id := Some ''TA0001'',
                    o_kill_chain_phases := Some [''execution'']\<rparr>]"

text \<open>An action with a known tactic id and no technique id.\<close>

definition tactic_only_doc :: document where
  "tactic_only_doc = stix_bundle [(stix_action ''a'')\<lparr>o_tactic_id := Some ''TA0001''\<rparr>]"

text \<open>A flow object, two actions and a relationship; and a bundle without flow object.\<close>

definition flow_doc :: document where
  "flow_doc =
     stix_bundle [emptyObj\<lparr>o_type := Some ''attack-flow'', o_id := Some ''f''\<rparr>,
       stix_action ''a'', stix_action ''b'',
       emptyObj\<lparr>o_type := Some ''relationship'', o_id := Some ''r'',
         o_source_ref := Some ''a'', o_target_ref := Some ''b''\<rparr>]"

definition noflow_doc :: document where
  "noflow_doc = stix_bundle [stix_action ''a'']"

text \<open>An action \<^verbatim>\<open>s\<close> whose effect is a condition with the true branch
  \<^verbatim>\<open>a\<close> and the false branch \<^verbatim>\<open>b\<close>.\<close>

definition condition_obj :: jsobj where
  "condition_obj =
     emptyObj\<lparr>o_type := Some ''attack-condition'', o_id := Some ''c'',
       o_on_true_refs := Some [''a''], o_on_false_refs := Some [''b'']\<rparr>"

definition source_action :: jsobj where
  "source_action = (stix_action ''s'')\<lparr>o_effect_refs := Some [''c'']\<rparr>"

definition condition_doc :: document where
  "condition_doc =
     stix_bundle [source_action, condition_obj, stix_action ''a'', stix_action ''b'']"

text \<open>A builder document: two actions, a connector between them and a connector to
  an id that no action has.\<close>

definition afb_obj :: "string \<Rightarrow> string \<Rightarrow> jsobj" where
  "afb_obj tag inst = emptyObj\<lparr>o_id := Some tag, o_instance := Some inst\<rparr>"

definition afb_doc :: document where
  "afb_doc =
     \<lparr>d_type = None, d_schema = Some ''attack_flow_v2'',
      d_objects = Some [afb_obj ''action'' ''x'', afb_obj ''action'' ''y'',
        (afb_obj ''line'' ''l1'')\<lparr>o_source := Some ''x'', o_target := Some ''y''\<rparr>,
        (afb_obj ''dynamic_line'' ''l2'')\<lparr>o_source := Some ''x'', o_target := Some ''z''\<rparr>]\<rparr>"

text \<open>A condition whose true branch is the condition itself, reached from the action
  \<^verbatim>\<open>s\<close>; and a rank for \<open>condition_doc\<close>.\<close>

definition self_condition :: jsobj where
  "self_condition =
     emptyObj\<lparr>o_type := Some ''attack-condition'', o_id := Some ''c'',
       o_on_true_refs := Some [''c'']\<rparr>"

definition cyclic_doc :: document where
  "cyclic_doc = stix_bundle [source_action, self_condition]"

definition condition_rank :: "jsobj \<Rightarrow> nat" where
  "condition_rank obj = (if has_type ''attack-condition'' obj then 1 else 0)"

text \<open>The bundle \<open>condition_doc\<close> with one more action \<^verbatim>\<open>t\<close>, whose effect is a
  condition \<^verbatim>\<open>d\<close> that names itself.\<close>

definition loop_condition :: jsobj where
  "loop_condition =
     emptyObj\<lparr>o_type := Some ''attack-condition'', o_id := Some ''d'',
       o_on_true_refs := Some [''d'']\<rparr>"

definition loop_action :: jsobj where
  "loop_action = (stix_action ''t'')\<lparr>o_effect_refs := Some [''d'']\<rparr>"

definition condition_loop_doc :: document where
  "condition_loop_doc =
     stix_bundle [source_action, condition_obj, stix_action ''a'', stix_action ''b'',
       loop_action, loop_condition]"

text \<open>Two actions that are each other's effect (a cycle), and two actions with the
  same id.\<close>

definition cycle_doc :: document where
  "cycle_doc =
     stix_bundle [(stix_action ''a'')\<lparr>o_effect_refs := Some [''b'']\<rparr>,
                  (stix_action ''b'')\<lparr>o_effect_refs := Some [''a'']\<rparr>]"

definition duplicate_id_doc :: document where
  "duplicate_id_doc = stix_bundle [stix_action ''a'', stix_action ''a'']"

text \<open>An action with an effect reference and a relationship target that name no
  object.\<close>

definition dangling_doc :: document where
  "dangling_doc =
     stix_bundle [(stix_action ''a'')\<lparr>o_effect_refs := Some [''b'', ''zz'']\<rparr>,
       stix_action ''b'',
       emptyObj\<lparr>o_type := Some ''relationship'', o_id := Some ''r'',
         o_source_ref := Some ''a'', o_target_ref := Some ''yy''\<rparr>]"

text \<open>Two actions with a technique id under one tactic, and an action without
  technique id.\<close>

definition technique_doc :: document where
  "technique_doc =
     stix_bundle [(stix_action ''a'')\<lparr>o_technique_id := Some ''T1190'', o_tactic_id := Some ''TA0001''\<rparr>,
       (stix_action ''b'')\<lparr>o_technique_id := Some ''T1566'', o_tactic_id := Some ''TA0001''\<rparr>,
       (stix_action ''c'')\<lparr>o_tactic_id := Some ''TA0002''\<rparr>]"

section \<open>Field extraction: what the two parsers collect\<close>

lemma parseAttackFlow_step_format [simp]: "format (parseAttackFlow_step obj p) = format p"
  and parseAttackFlow_step_rawData [simp]: "rawData (parseAttackFlow_step obj p) = rawData p"
  and parseAttackFlow_step_objects [simp]:
    "objects (parseAttackFlow_step obj p) = (objects p)(key (o_id obj) \<mapsto> obj)"
  by (simp_all add: parseAttackFlow_step_def Let_def)

lemma parseAttackFlow_step_actions:
  "actions (parseAttackFlow_step obj p) =
     actions p @ (if has_type ''attack-action'' obj then [obj] else [])"
  by (simp add: parseAttackFlow_step_def Let_def has_type_def)

lemma parseAttackFlow_step_relationships:
  "relationships (parseAttackFlow_step obj p) =
     relationships p @ (if has_type ''relationship'' obj then [obj] else [])"
  by (simp add: parseAttackFlow_step_def Let_def has_type_def)

lemma parseAttackFlow_step_attackFlow:
  "attackFlow (parseAttackFlow_step obj p) =
     (if has_type ''attack-flow'' obj then Some obj else attackFlow p)"
  by (simp add: parseAttackFlow_step_def Let_def has_type_def)

lemma fold_parseAttackFlow_step_format [simp]:
  "format (fold parseAttackFlow_step objs p) = format p"
  "rawData (fold parseAttackFlow_step objs p) = rawData p"
  by (induction objs arbitrary: p) simp_all

lemma fold_parseAttackFlow_step_actions:
  "actions (fold parseAttackFlow_step objs p) =
     actions p @ filter (has_type ''attack-action'') objs"
  by (induction objs arbitrary: p) (simp_all add: parseAttackFlow_step_actions)

lemma fold_parseAttackFlow_step_relationships:
  "relationships (fold parseAttackFlow_step objs p) =
     relationships p @ filter (has_type ''relationship'') objs"
  by (induction objs arbitrary: p) (simp_all add: parseAttackFlow_step_relationships)

lemma fold_parseAttackFlow_step_attackFlow_None:
  "(attackFlow (fold parseAttackFlow_step objs p) = None) =
     (attackFlow p = None \<and> \<not> list_ex (has_type ''attack-flow'') objs)"
  by (induction objs arbitrary: p) (auto simp: parseAttackFlow_step_attackFlow)

lemma fold_parseAttackFlow_step_objects_dom:
  "dom (objects (fold parseAttackFlow_step objs p)) =
     dom (objects p) \<union> (\<lambda>obj. key (o_id obj)) ` set objs"
  by (induction objs arbitrary: p) auto

lemma fold_parseAttackFlow_step_objects_Some:
  "objects (fold parseAttackFlow_step objs p) k = Some obj \<Longrightarrow>
     objects p k = Some obj \<or> (obj \<in> set objs \<and> key (o_id obj) = k)"
proof (induction objs arbitrary: p)
  case Nil
  then show ?case by simp
next
  case (Cons a objs)
  from Cons.prems have "objects (fold parseAttackFlow_step objs (parseAttackFlow_step a p)) k = Some obj"
    by simp
  from Cons.IH [OF this]
  show ?case by (auto split: if_splits)
qed

lemma parseAFB_object_simps [simp]:
  "format (parseAFB_object obj p) = format p"
  "rawData (parseAFB_object obj p) = rawData p"
  "attackFlow (parseAFB_object obj p) = attackFlow p"
  "relationships (parseAFB_object obj p) = relationships p"
  by (simp_all add: parseAFB_object_def)

lemma parseAFB_line_simps [simp]:
  "format (parseAFB_line obj p) = format p"
  "rawData (parseAFB_line obj p) = rawData p"
  "attackFlow (parseAFB_line obj p) = attackFlow p"
  "actions (parseAFB_line obj p) = actions p"
  "objects (parseAFB_line obj p) = objects p"
  by (simp_all add: parseAFB_line_def)

lemma fold_parseAFB_object_simps [simp]:
  "format (fold parseAFB_object objs p) = format p"
  "rawData (fold parseAFB_object objs p) = rawData p"
  "attackFlow (fold parseAFB_object objs p) = attackFlow p"
  "relationships (fold parseAFB_object objs p) = relationships p"
  by (induction objs arbitrary: p) simp_all

lemma fold_parseAFB_line_simps [simp]:
  "format (fold parseAFB_line objs p) = format p"
  "rawData (fold parseAFB_line objs p) = rawData p"
  "attackFlow (fold parseAFB_line objs p) = attackFlow p"
  "actions (fold parseAFB_line objs p) = actions p"
  "objects (fold parseAFB_line objs p) = objects p"
  by (induction objs arbitrary: p) simp_all

lemma fold_parseAFB_object_actions:
  "actions (fold parseAFB_object objs p) =
     actions p @ map afb_action (filter (has_tag ''action'') objs)"
  by (induction objs arbitrary: p) (simp_all add: parseAFB_object_def)

lemma fold_parseAFB_line_relationships:
  "relationships (fold parseAFB_line objs p) =
     relationships p @ map afb_relationship (filter is_connector objs)"
  by (induction objs arbitrary: p) (auto simp: parseAFB_line_def is_connector_def)

lemma fold_parseAFB_object_objects_dom:
  "dom (objects (fold parseAFB_object objs p)) =
     dom (objects p) \<union>
     (\<lambda>obj. key (o_instance obj)) ` {obj \<in> set objs. has_tag ''action'' obj \<or> has_tag ''asset'' obj}"
  by (induction objs arbitrary: p) (auto simp: parseAFB_object_def)

lemma parseAFB_attackFlow_None:
  "(attackFlow (parseAFB p) = None) =
     (attackFlow p = None \<and> \<not> list_ex (has_tag ''flow'') (objs_of (rawData p)))"
proof (cases "find (has_tag ''flow'') (objs_of (rawData p))")
  case None
  then have "\<not> list_ex (has_tag ''flow'') (objs_of (rawData p))"
    by (simp add: list_ex_iff find_None_iff)
  with None show ?thesis
    by (simp add: parseAFB_def Let_def)
next
  case (Some flowObj)
  then have "list_ex (has_tag ''flow'') (objs_of (rawData p))"
    by (auto simp: list_ex_iff find_Some_iff)
  with Some show ?thesis
    by (simp add: parseAFB_def Let_def)
qed

lemma parseAFB_actions:
  "actions (parseAFB p) =
     actions p @ map afb_action (filter (has_tag ''action'') (objs_of (rawData p)))"
  by (simp add: parseAFB_def Let_def fold_parseAFB_object_actions split: option.splits)

lemma parseAFB_relationships:
  "relationships (parseAFB p) =
     relationships p @ map afb_relationship (filter is_connector (objs_of (rawData p)))"
  by (simp add: parseAFB_def Let_def fold_parseAFB_line_relationships split: option.splits)

lemma parseAFB_format [simp]:
  "format (parseAFB p) = format p" "rawData (parseAFB p) = rawData p"
  by (simp_all add: parseAFB_def Let_def split: option.splits)

lemma buildGraph_fields:
  assumes "buildGraph n p = Some p'"
  shows "format p' = format p" "attackFlow p' = attackFlow p" "actions p' = actions p"
    "relationships p' = relationships p" "objects p' = objects p" "rawData p' = rawData p"
  using assms by (auto simp: buildGraph_def Let_def split: option.splits)

lemma init_parser_simps [simp]:
  "format (init_parser data fmt) = fmt"
  "rawData (init_parser data fmt) = data"
  "objects (init_parser data fmt) = Map.empty"
  "attackFlow (init_parser data fmt) = None"
  "actions (init_parser data fmt) = []"
  "relationships (init_parser data fmt) = []"
  by (simp_all add: init_parser_def)

lemma new_parser_Inr:
  assumes "new_parser n data = Some (Inr p)"
  obtains fmt where "detectFormat data = Inr fmt" "parse n (init_parser data fmt) = Some p"
  using assms by (auto simp: new_parser_def split: sum.splits option.splits)

lemma parse_fields:
  assumes "parse n (init_parser data fmt) = Some p"
  shows "format p = fmt"
    and "rawData p = data"
    and "(attackFlow p = None) = (\<not> list_ex (is_flow fmt) (objs_of data))"
    and "actions p = (case fmt of AttackFlow \<Rightarrow> filter (has_type ''attack-action'') (objs_of data)
           | AFB \<Rightarrow> map afb_action (filter (has_tag ''action'') (objs_of data)))"
    and "relationships p = (case fmt of AttackFlow \<Rightarrow> filter (has_type ''relationship'') (objs_of data)
           | AFB \<Rightarrow> map afb_relationship (filter is_connector (objs_of data)))"
proof -
  let ?q = "case fmt of AttackFlow \<Rightarrow> parseAttackFlow (init_parser data fmt)
              | AFB \<Rightarrow> parseAFB (init_parser data fmt)"
  from assms have b: "buildGraph n ?q = Some p"
    by (simp add: parse_def)
  note f = buildGraph_fields [OF b]
  show "format p = fmt"
    by (cases fmt) (simp_all add: f parseAttackFlow_def)
  show "rawData p = data"
    by (cases fmt) (simp_all add: f parseAttackFlow_def)
  show "(attackFlow p = None) = (\<not> list_ex (is_flow fmt) (objs_of data))"
    by (cases fmt)
      (simp_all add: f parseAttackFlow_def is_flow_def
        fold_parseAttackFlow_step_attackFlow_None parseAFB_attackFlow_None)
  show "actions p = (case fmt of AttackFlow \<Rightarrow> filter (has_type ''attack-action'') (objs_of data)
           | AFB \<Rightarrow> map afb_action (filter (has_tag ''action'') (objs_of data)))"
    by (cases fmt)
      (simp_all add: f parseAttackFlow_def
        fold_parseAttackFlow_step_actions parseAFB_actions)
  show "relationships p = (case fmt of AttackFlow \<Rightarrow> filter (has_type ''relationship'') (objs_of data)
           | AFB \<Rightarrow> map afb_relationship (filter is_connector (objs_of data)))"
    by (cases fmt)
      (simp_all add: f parseAttackFlow_def
        fold_parseAttackFlow_step_relationships parseAFB_relationships)
qed

lemma new_parser_format:
  assumes "new_parser n data = Some (Inr p)"
  shows "detectFormat data = Inr (format p)"
proof -
  from assms obtain fmt where "detectFormat data = Inr fmt" "parse n (init_parser data fmt) = Some p"
    by (rule new_parser_Inr)
  then show ?thesis by (simp add: parse_fields(1))
qed

lemma built_SomeE:
  assumes "\<not> Option.is_none (built r)"
  obtains p where "r = Some (Inr p)"
  using assms by (auto simp: built_def Option.is_none_def split: option.splits sum.splits)

section \<open>Edge resolution keeps the nodes and connects known ids\<close>

lemma forEachOpt_rel:
  assumes "forEachOpt f xs s = Some s'"
    and "\<And>y t t'. y \<in> set xs \<Longrightarrow> f y t = Some t' \<Longrightarrow> R t t'"
    and "\<And>t. R t t"
    and "\<And>a b c. R a b \<Longrightarrow> R b c \<Longrightarrow> R a c"
  shows "R s s'"
  using assms(1,2)
proof (induction xs arbitrary: s)
  case Nil
  then show ?case by (simp add: assms(3))
next
  case (Cons x xs)
  from Cons.prems(1) obtain t where t: "f x s = Some t" "forEachOpt f xs t = Some s'"
    by (auto split: option.splits)
  have "R s t" using t(1) Cons.prems(2) by (meson list.set_intros(1))
  moreover have "R t s'" using Cons.IH [OF t(2)] Cons.prems(2) by (meson list.set_intros(2))
  ultimately show ?case by (rule assms(4))
qed

lemma forEachOpt_step:
  assumes "forEachOpt f xs s = Some s'"
    and "x \<in> set xs"
    and "\<And>y t t'. y \<in> set xs \<Longrightarrow> f y t = Some t' \<Longrightarrow> R t t'"
    and "\<And>t. R t t"
    and "\<And>a b c. R a b \<Longrightarrow> R b c \<Longrightarrow> R a c"
  obtains t t' where "f x t = Some t'" "R s t" "R t' s'"
  using assms(1,2,3)
proof (induction xs arbitrary: s thesis)
  case Nil
  then show ?case by simp
next
  case (Cons y ys)
  from Cons.prems(2) obtain u where u: "f y s = Some u" "forEachOpt f ys u = Some s'"
    by (auto split: option.splits)
  have su: "R s u" using u(1) Cons.prems(4) by (meson list.set_intros(1))
  show ?case
  proof (cases "x = y")
    case True
    have "R u s'"
      by (rule forEachOpt_rel [OF u(2)]) (use Cons.prems(4) assms(4,5) in auto)
    with u(1) True show ?thesis
      using Cons.prems(1) assms(4) by blast
  next
    case False
    with Cons.prems(3) have "x \<in> set ys" by simp
    then obtain t t' where tt: "f x t = Some t'" "R u t" "R t' s'"
      using Cons.IH [OF _ u(2)] Cons.prems(4) by (metis list.set_intros(2))
    from su tt(2) have "R s t" by (rule assms(5))
    with tt show ?thesis using Cons.prems(1) by blast
  qed
qed

lemma forEachOpt_total:
  assumes "\<And>x s. x \<in> set xs \<Longrightarrow> \<exists>s'. f x s = Some s'"
  shows "\<exists>s'. forEachOpt f xs s = Some s'"
  using assms
proof (induction xs arbitrary: s)
  case Nil
  then show ?case by simp
next
  case (Cons x xs)
  from Cons.prems obtain t where "f x s = Some t" by (meson list.set_intros(1))
  moreover from Cons have "\<exists>s'. forEachOpt f xs t = Some s'" by (meson list.set_intros(2))
  ultimately show ?case by simp
qed

lemma nodeMap_okD:
  "nodeMap_ok nm (map n_id ns) \<Longrightarrow> nm k = Some i \<Longrightarrow> i < length ns \<and> n_id (ns ! i) = k"
  unfolding nodeMap_ok_def by (metis length_map nth_map)

lemma grows_refl: "grows nm g g"
  by (simp add: grows_def)

lemma grows_trans: "grows nm a b \<Longrightarrow> grows nm b c \<Longrightarrow> grows nm a c"
  by (auto simp: grows_def)

lemma grows_edges_mono: "grows nm g g' \<Longrightarrow> e \<in> set (edges g) \<Longrightarrow> e \<in> set (edges g')"
  by (auto simp: grows_def)

lemma map_n_id_addChild [simp]: "map n_id (addChild i t ns) = map n_id ns"
  by (cases "i < length ns") (auto simp: addChild_def list_eq_iff_nth_eq nth_list_update)

lemma grows_pushEdge: "grows nm g (pushEdge nm s t g)"
  by (auto simp: pushEdge_def grows_def split: option.splits)

lemma edges_pushEdge:
  "edges (pushEdge nm s t g) =
     edges g @ (if nm s \<noteq> None \<and> nm t \<noteq> None then [\<lparr>source = s, target = t\<rparr>] else [])"
  by (auto simp: pushEdge_def split: option.splits)

lemma relEdge_ids [simp]: "map n_id (nodes (relEdge nm s t g)) = map n_id (nodes g)"
  by (auto simp: relEdge_def split: option.splits)

lemma edges_relEdge:
  assumes "nodeMap_ok nm (map n_id (nodes g))"
  shows "edges (relEdge nm s t g) =
     edges g @ (if nm s \<noteq> None \<and> nm t \<noteq> None then [\<lparr>source = s, target = t\<rparr>] else [])"
proof (cases "nm s")
  case None
  then show ?thesis by (simp add: relEdge_def)
next
  case (Some i)
  note s = this
  show ?thesis
  proof (cases "nm t")
    case None
    with s show ?thesis by (simp add: relEdge_def)
  next
    case (Some j)
    from nodeMap_okD [OF assms s] nodeMap_okD [OF assms Some] s Some
    show ?thesis by (simp add: relEdge_def)
  qed
qed

lemma grows_relEdge:
  assumes "nodeMap_ok nm (map n_id (nodes g))"
  shows "grows nm g (relEdge nm s t g)"
  by (simp add: grows_def edges_relEdge [OF assms])

lemma grows_nodeMap_ok:
  "grows nm g g' \<Longrightarrow> nodeMap_ok nm (map n_id (nodes g)) \<Longrightarrow> nodeMap_ok nm (map n_id (nodes g'))"
  by (simp add: grows_def)

lemma followEffectChain_grows:
  "followEffectChain n objs nm s e g = Some g' \<Longrightarrow> grows nm g g'"
proof (induction n arbitrary: e g g')
  case 0
  then show ?case by simp
next
  case (Suc n)
  let ?follow = "\<lambda>ref g'. case objs ref of None \<Rightarrow> Some g'
                   | Some nextNode \<Rightarrow> followEffectChain n objs nm s nextNode g'"
  have follow: "grows nm t t'" if "?follow r t = Some t'" for r t t'
    using that Suc.IH by (auto simp: grows_refl split: option.splits)
  have loop: "grows nm t t'" if "forEachOpt ?follow refs t = Some t'" for refs t t'
    using that by (rule forEachOpt_rel) (auto intro: follow grows_refl grows_trans)
  from Suc.prems show ?case
    by (auto simp: Let_def grows_refl grows_pushEdge split: if_splits option.splits
        dest!: loop intro: grows_trans)
qed

lemma actionEffects_grows:
  "actionEffects n objs nm a g = Some g' \<Longrightarrow> grows nm g g'"
  unfolding actionEffects_def
  by (cases "o_effect_refs a")
    (auto simp: grows_refl split: option.splits
      elim!: forEachOpt_rel intro: followEffectChain_grows grows_refl grows_trans)

lemma buildNodes_ids: "map n_id (buildNodes as) = map actionId as"
proof -
  have "map n_id (buildNodes as) = map (actionId \<circ> snd) (enumerate 0 as)"
    by (simp add: buildNodes_def mkNode_def actionId_def split_def comp_def)
  also have "\<dots> = map actionId as"
    by (simp add: map_map [symmetric] del: map_map)
  finally show ?thesis .
qed

lemma buildNodeMap_snoc:
  "buildNodeMap (ns @ [n]) = (buildNodeMap ns)(n_id n \<mapsto> length ns)"
  by (simp add: buildNodeMap_def enumerate_append_eq)

lemma buildNodeMap_Nil [simp]: "buildNodeMap [] = Map.empty"
  by (simp add: buildNodeMap_def)

lemma buildNodeMap_ok: "nodeMap_ok (buildNodeMap ns) (map n_id ns)"
proof (induction ns rule: rev_induct)
  case Nil
  show ?case by (simp add: nodeMap_ok_def)
next
  case (snoc n ns)
  show ?case
    unfolding nodeMap_ok_def
  proof (intro allI impI)
    fix k i
    assume a: "buildNodeMap (ns @ [n]) k = Some i"
    show "i < length (map n_id (ns @ [n])) \<and> map n_id (ns @ [n]) ! i = k"
    proof (cases "k = n_id n")
      case True
      with a show ?thesis by (simp add: buildNodeMap_snoc nth_append)
    next
      case False
      with a have "buildNodeMap ns k = Some i" by (simp add: buildNodeMap_snoc)
      from nodeMap_okD [OF snoc.IH this] show ?thesis by (simp add: nth_append)
    qed
  qed
qed

lemma dom_buildNodeMap: "dom (buildNodeMap ns) = n_id ` set ns"
proof (induction ns rule: rev_induct)
  case Nil
  show ?case by simp
next
  case (snoc n ns)
  have "dom (buildNodeMap (ns @ [n])) = insert (n_id n) (dom (buildNodeMap ns))"
    unfolding buildNodeMap_snoc by (auto simp: dom_def)
  with snoc show ?case by simp
qed

lemma fold_relEdge_edges:
  assumes "nodeMap_ok nm (map n_id (nodes g))"
  shows "map n_id (nodes (fold (\<lambda>rel. relEdge nm (f rel) (h rel)) rels g)) = map n_id (nodes g)
    \<and> edges (fold (\<lambda>rel. relEdge nm (f rel) (h rel)) rels g) =
        edges g @ map (\<lambda>rel. \<lparr>source = f rel, target = h rel\<rparr>)
                    (filter (\<lambda>rel. nm (f rel) \<noteq> None \<and> nm (h rel) \<noteq> None) rels)"
  using assms
proof (induction rels arbitrary: g)
  case Nil
  show ?case by simp
next
  case (Cons rel rels)
  have "nodeMap_ok nm (map n_id (nodes (relEdge nm (f rel) (h rel) g)))"
    using Cons.prems by simp
  from Cons.IH [OF this] show ?case
    by (simp add: edges_relEdge [OF Cons.prems])
qed

lemma fold_relEdge_grows:
  assumes "nodeMap_ok nm (map n_id (nodes g))"
  shows "grows nm g (fold (\<lambda>rel. relEdge nm (f rel) (h rel)) rels g)"
  using fold_relEdge_edges [OF assms, of f h rels] by (auto simp: grows_def)

lemma buildAttackFlowEdges_grows:
  assumes "buildAttackFlowEdges n p nm g = Some g'" "nodeMap_ok nm (map n_id (nodes g))"
  shows "grows nm g g'"
proof -
  from assms(1) obtain g1 where g1: "forEachOpt (actionEffects n (objects p) nm) (actions p) g = Some g1"
    and g': "g' = fold (\<lambda>rel. relEdge nm (o_source_ref rel) (o_target_ref rel)) (relationships p) g1"
    by (auto simp: buildAttackFlowEdges_def split: option.splits)
  have a: "grows nm g g1"
    by (rule forEachOpt_rel [OF g1]) (auto intro: actionEffects_grows grows_refl grows_trans)
  then have "nodeMap_ok nm (map n_id (nodes g1))"
    using assms(2) by (rule grows_nodeMap_ok)
  then have "grows nm g1 g'"
    unfolding g' by (rule fold_relEdge_grows)
  with a show ?thesis by (rule grows_trans)
qed

lemma buildGraph_grows:
  assumes "buildGraph n p = Some p'"
  shows "grows (buildNodeMap (buildNodes (actions p)))
           \<lparr>nodes = buildNodes (actions p), edges = []\<rparr> (graph p')"
proof -
  let ?ns = "buildNodes (actions p)"
  let ?nm = "buildNodeMap ?ns"
  let ?g0 = "\<lparr>nodes = ?ns, edges = []\<rparr>"
  have ok: "nodeMap_ok ?nm (map n_id (nodes ?g0))"
    by (simp add: buildNodeMap_ok)
  show ?thesis
  proof (cases "format p")
    case AttackFlow
    with assms obtain g where g: "buildAttackFlowEdges n p ?nm ?g0 = Some g" "graph p' = g"
      by (auto simp: buildGraph_def Let_def split: option.splits)
    from buildAttackFlowEdges_grows [OF g(1) ok] g(2) show ?thesis by simp
  next
    case AFB
    with assms have "graph p' = buildAFBEdges p ?nm ?g0"
      by (auto simp: buildGraph_def Let_def split: option.splits)
    with fold_relEdge_grows [OF ok] show ?thesis
      by (simp add: buildAFBEdges_def)
  qed
qed

lemma dom_nodeMap_actions:
  "dom (buildNodeMap (buildNodes as)) = actionId ` set as"
  using buildNodes_ids [of as] by (metis dom_buildNodeMap list.set_map)

lemma buildGraph_ids:
  assumes "buildGraph n p = Some p'"
  shows "map n_id (nodes (graph p')) = map actionId (actions p')"
  using buildGraph_grows [OF assms] buildGraph_fields(3) [OF assms]
  by (simp add: grows_def buildNodes_ids)

lemma buildGraph_edges_closed:
  assumes "buildGraph n p = Some p'" "e \<in> set (edges (graph p'))"
  shows "source e \<in> actionId ` set (actions p') \<and> target e \<in> actionId ` set (actions p')"
  using buildGraph_grows [OF assms(1)] assms(2) buildGraph_fields(3) [OF assms(1)]
    dom_nodeMap_actions [of "actions p"]
  by (auto simp: grows_def dom_def)

lemma new_parser_buildGraph:
  assumes "new_parser n data = Some (Inr p)"
  obtains q where "buildGraph n q = Some p"
  using assms by (auto simp: new_parser_def parse_def split: sum.splits option.splits)

lemma new_parser_ids:
  assumes "new_parser n data = Some (Inr p)"
  shows "map n_id (nodes (graph p)) = map actionId (actions p)"
  using assms by (auto elim!: new_parser_buildGraph dest: buildGraph_ids)

lemma new_parser_edges_closed:
  assumes "new_parser n data = Some (Inr p)" "e \<in> set (edges (graph p))"
  shows "source e \<in> actionId ` set (actions p) \<and> target e \<in> actionId ` set (actions p)"
  using assms by (auto elim!: new_parser_buildGraph dest: buildGraph_edges_closed)

lemma parseAFB_objects_dom:
  "dom (objects (parseAFB p)) =
     dom (objects p) \<union>
     (\<lambda>obj. key (o_instance obj)) `
       {obj \<in> set (objs_of (rawData p)). has_tag ''action'' obj \<or> has_tag ''asset'' obj}"
  by (simp add: parseAFB_def Let_def fold_parseAFB_object_objects_dom split: option.splits)

lemma parse_objects_dom:
  assumes "parse n (init_parser data fmt) = Some p"
  shows "dom (objects p) =
    (case fmt of
       AttackFlow \<Rightarrow> (\<lambda>obj. key (o_id obj)) ` set (objs_of data)
     | AFB \<Rightarrow> (\<lambda>obj. key (o_instance obj)) `
         {obj \<in> set (objs_of data). has_tag ''action'' obj \<or> has_tag ''asset'' obj})"
proof -
  let ?q = "case fmt of AttackFlow \<Rightarrow> parseAttackFlow (init_parser data fmt)
              | AFB \<Rightarrow> parseAFB (init_parser data fmt)"
  from assms have b: "buildGraph n ?q = Some p"
    by (simp add: parse_def)
  show ?thesis
    unfolding buildGraph_fields(5) [OF b]
    by (cases fmt)
      (simp_all add: parseAttackFlow_def fold_parseAttackFlow_step_objects_dom
        parseAFB_objects_dom)
qed

lemma actionId_truthy: "truthy (o_id a) \<Longrightarrow> actionId a = o_id a"
  by (simp add: actionId_def js_or_def)

lemma actionId_afb_action [simp]: "actionId (afb_action obj) = o_instance obj"
  by (simp add: actionId_def js_or_def afb_action_def emptyObj_def)

lemma afb_relationship_simps [simp]:
  "o_source (afb_relationship c) = o_source c" "o_target (afb_relationship c) = o_target c"
  by (simp_all add: afb_relationship_def emptyObj_def)

lemma built_eq: "r = Some (Inr p) \<Longrightarrow> built r = Some p"
  by (simp add: built_def)

section \<open>Format errors\<close>

text \<open>
  Claim C5. Whatever the bound \<open>n\<close>: a document that is neither a bundle with a marker
  object nor builder-shaped makes the constructor throw, and a bundle-shaped document
  without \<^verbatim>\<open>attack-flow\<close> and \<^verbatim>\<open>attack-action\<close> object (such as one with
  \<^verbatim>\<open>objects: []\<close>) makes it throw the "no Attack Flow objects" error. The result is an
  error and carries no parser, hence no graph.
\<close>

theorem format_error_produces_no_graph:
  "(\<not> (bundle_shaped data \<and> has_marker data) \<and> \<not> builder_shaped data
      \<longrightarrow> (\<exists>e. new_parser n data = Some (Inl e)))
   \<and> (bundle_shaped data \<and> \<not> has_marker data
      \<longrightarrow> new_parser n data = Some (Inl NoAttackFlowObjects))"
  by (auto simp: new_parser_def detectFormat_def bundle_shaped_def builder_shaped_def
      has_marker_def Let_def)

theorem format_error_produces_no_graph_witness:
  "new_parser 0 (stix_bundle []) = Some (Inl NoAttackFlowObjects)
   \<and> bundle_shaped (stix_bundle []) \<and> \<not> has_marker (stix_bundle [])
   \<and> \<not> builder_shaped (stix_bundle [])"
  using format_error_produces_no_graph [of "stix_bundle []" 0]
  by (simp add: bundle_shaped_def has_marker_def builder_shaped_def stix_bundle_def
      objs_of_def truthy_def)

section \<open>Flow metadata\<close>

text \<open>
  Claim C10. For a document that the constructor parsed, \<^verbatim>\<open>getFlowMetadata\<close>
  returns \<^verbatim>\<open>null\<close> exactly when the document has no flow-level object (no
  \<^verbatim>\<open>attack-flow\<close> object in a bundle, no \<^verbatim>\<open>flow\<close>-tagged object in a builder
  document); a record it returns has \<^verbatim>\<open>actionCount\<close> and
  \<^verbatim>\<open>relationshipCount\<close> equal to the lengths of \<^verbatim>\<open>this.actions\<close> and
  \<^verbatim>\<open>this.relationships\<close>, which are the numbers of action and relationship objects
  of the document.
\<close>

theorem getFlowMetadata_null_or_counts:
  assumes "new_parser n data = Some (Inr p)"
  shows "(getFlowMetadata p = None) = (\<not> list_ex (is_flow (format p)) (objs_of data))
    \<and> (\<forall>m. getFlowMetadata p = Some m \<longrightarrow>
           actionCount m = length (actions p)
         \<and> relationshipCount m = length (relationships p)
         \<and> length (actions p) = length (filter (is_action (format p)) (objs_of data))
         \<and> length (relationships p) =
             length (filter (is_relationship (format p)) (objs_of data)))"
proof -
  from assms obtain fmt where "parse n (init_parser data fmt) = Some p"
    by (rule new_parser_Inr)
  note f = parse_fields [OF this]
  have a: "length (actions p) = length (filter (is_action (format p)) (objs_of data))"
    by (cases fmt) (simp_all add: f is_action_def)
  have r: "length (relationships p) = length (filter (is_relationship (format p)) (objs_of data))"
    by (cases fmt) (simp_all add: f is_relationship_def)
  from f(3) a r show ?thesis
    by (cases "attackFlow p") (auto simp: getFlowMetadata_def f(1))
qed

theorem getFlowMetadata_null_or_counts_witness:
  "(\<exists>p m. new_parser 1 flow_doc = Some (Inr p) \<and> getFlowMetadata p = Some m
       \<and> actionCount m = 2 \<and> relationshipCount m = 1)
   \<and> (\<exists>p. new_parser 1 noflow_doc = Some (Inr p) \<and> getFlowMetadata p = None)"
proof
  have "\<not> Option.is_none (built (new_parser 1 flow_doc))"
    by code_simp
  then obtain p where p: "new_parser 1 flow_doc = Some (Inr p)"
    by (rule built_SomeE)
  have "detectFormat flow_doc = Inr AttackFlow"
    by code_simp
  with new_parser_format [OF p] have fmt: "format p = AttackFlow"
    by simp
  have l: "list_ex (is_flow AttackFlow) (objs_of flow_doc)"
    "length (filter (is_action AttackFlow) (objs_of flow_doc)) = 2"
    "length (filter (is_relationship AttackFlow) (objs_of flow_doc)) = 1"
    by code_simp+
  from getFlowMetadata_null_or_counts [OF p] l fmt
  show "\<exists>p m. new_parser 1 flow_doc = Some (Inr p) \<and> getFlowMetadata p = Some m
       \<and> actionCount m = 2 \<and> relationshipCount m = 1"
    using p by (cases "getFlowMetadata p") auto
next
  have "\<not> Option.is_none (built (new_parser 1 noflow_doc))"
    by code_simp
  then obtain p where p: "new_parser 1 noflow_doc = Some (Inr p)"
    by (rule built_SomeE)
  have "detectFormat noflow_doc = Inr AttackFlow"
    by code_simp
  with new_parser_format [OF p] have fmt: "format p = AttackFlow"
    by simp
  have l: "\<not> list_ex (is_flow AttackFlow) (objs_of noflow_doc)"
    by code_simp
  from getFlowMetadata_null_or_counts [OF p] l fmt p
  show "\<exists>p. new_parser 1 noflow_doc = Some (Inr p) \<and> getFlowMetadata p = None"
    by auto
qed

section \<open>Tactic resolution\<close>

text \<open>
  Claim C4 says that a tactic identifier known to the table decides the tactic name, and
  that kill chain phases are consulted only without one. The comment in
  \<^verbatim>\<open>buildGraph\<close> says the same ("Infer tactic from kill_chain_phases if not
  present"), but the code overwrites name and id whenever a phase is present. For the
  action of \<open>tactic_conflict_doc\<close>, whose tactic id \<^verbatim>\<open>TA0001\<close> is in the table as
  Initial Access, the node gets the name Execution and the id \<^verbatim>\<open>TA0002\<close>.
\<close>

theorem known_tactic_id_overridden_by_phase:
  "map_of tacticMap ''TA0001'' = Some ''Initial Access''
   \<and> map_option (\<lambda>p. map (\<lambda>n. (n_tactic_id n, n_tactic_name n)) (nodes (graph p)))
        (built (new_parser 1 tactic_conflict_doc))
     = Some [(Some ''TA0002'', ''Execution'')]"
  by code_simp

section \<open>Grouping by tactic\<close>

text \<open>
  Claim C6 as stated fails: \<^verbatim>\<open>getTactics\<close> skips a node without
  \<^verbatim>\<open>technique_id\<close>, whatever its tactic name. The action of \<open>tactic_only_doc\<close>
  gets the tactic name Initial Access and is in no group.
\<close>

theorem getTactics_skips_node_without_technique:
  "map_option (\<lambda>p. map n_tactic_name (nodes (graph p))) (built (new_parser 1 tactic_only_doc))
     = Some [''Initial Access'']
   \<and> map_option getTactics (built (new_parser 1 tactic_only_doc)) = Some []"
  by code_simp

lemma map_of_tacticsPush:
  "map_of (tacticsPush k0 n m) k =
     (if k = k0 then Some ((case map_of m k0 of None \<Rightarrow> [] | Some l \<Rightarrow> l) @ [n])
      else map_of m k)"
proof -
  have a: "map_of (map (\<lambda>(k', ns). if k' = k0 then (k', ns @ [n]) else (k', ns)) xs) k =
      (if k = k0 then map_option (\<lambda>ns. ns @ [n]) (map_of xs k) else map_of xs k)" for xs
    by (induction xs) auto
  show ?thesis
    by (cases "map_of m k0") (auto simp: tacticsPush_def Let_def a map_add_def split: option.splits)
qed

lemma keys_tacticsPush:
  "map fst (tacticsPush k0 n m) = (if map_of m k0 = None then map fst m @ [k0] else map fst m)"
proof -
  have a: "map fst (map (\<lambda>(k', ns). if k' = k0 then (k', ns @ [n]) else (k', ns)) xs) = map fst xs"
    for xs by (induction xs) auto
  show ?thesis
    by (simp add: tacticsPush_def Let_def a del: map_map)
qed

lemma fold_getTactics_step:
  "map_of (fold getTactics_step ns []) k =
     (if grouped k ns = [] then None else Some (grouped k ns))
   \<and> distinct (map fst (fold getTactics_step ns []))"
proof (induction ns rule: rev_induct)
  case Nil
  show ?case by (simp add: grouped_def)
next
  case (snoc n ns)
  let ?m = "fold getTactics_step ns []"
  show ?case
  proof (cases "truthy (n_technique_id n)")
    case False
    with snoc show ?thesis
      by (simp add: getTactics_step_def grouped_def)
  next
    case True
    have "map_of ?m (tacticKey n) = None \<Longrightarrow> tacticKey n \<notin> set (map fst ?m)"
      by (simp add: map_of_eq_None_iff)
    with snoc True show ?thesis
      by (auto simp: getTactics_step_def map_of_tacticsPush keys_tacticsPush grouped_def)
  qed
qed

text \<open>
  Edge resolution changes the child lists of the nodes only, so the nodes of a graph
  that the constructor built keep the sequence numbers \<open>0, 1, ...\<close> and are pairwise
  different.
\<close>

lemma map_n_sequence_addChild [simp]: "map n_sequence (addChild i t ns) = map n_sequence ns"
  by (cases "i < length ns") (auto simp: addChild_def list_eq_iff_nth_eq nth_list_update)

lemma pushEdge_sequence [simp]:
  "map n_sequence (nodes (pushEdge nm s t g)) = map n_sequence (nodes g)"
  by (auto simp: pushEdge_def split: option.splits)

lemma relEdge_sequence [simp]:
  "map n_sequence (nodes (relEdge nm s t g)) = map n_sequence (nodes g)"
  by (auto simp: relEdge_def split: option.splits)

lemma followEffectChain_sequence:
  "followEffectChain n objs nm s e g = Some g' \<Longrightarrow>
     map n_sequence (nodes g') = map n_sequence (nodes g)"
proof (induction n arbitrary: e g g')
  case 0
  then show ?case by (simp add: followEffectChain.simps)
next
  case (Suc n)
  let ?follow = "\<lambda>ref g'. case objs ref of None \<Rightarrow> Some g'
                   | Some nextNode \<Rightarrow> followEffectChain n objs nm s nextNode g'"
  have follow: "map n_sequence (nodes t') = map n_sequence (nodes t)"
    if "?follow r t = Some t'" for r t t'
    using that Suc.IH by (auto split: option.splits)
  have loop: "map n_sequence (nodes t') = map n_sequence (nodes t)"
    if "forEachOpt ?follow refs t = Some t'" for refs t t'
    using that
    by (rule forEachOpt_rel [where R = "\<lambda>a b. map n_sequence (nodes b) = map n_sequence (nodes a)"])
      (auto dest: follow)
  from Suc.prems show ?case
    by (auto simp: followEffectChain.simps Let_def split: if_splits option.splits dest!: loop)
qed

lemma actionEffects_sequence:
  "actionEffects n objs nm a g = Some g' \<Longrightarrow>
     map n_sequence (nodes g') = map n_sequence (nodes g)"
  unfolding actionEffects_def
  by (cases "o_effect_refs a")
    (auto split: option.splits dest: followEffectChain_sequence
      elim!: forEachOpt_rel [where R = "\<lambda>a b. map n_sequence (nodes b) = map n_sequence (nodes a)"])

lemma fold_relEdge_sequence:
  "map n_sequence (nodes (fold (\<lambda>rel. relEdge nm (f rel) (h rel)) rels g)) =
     map n_sequence (nodes g)"
  by (induction rels arbitrary: g) simp_all

lemma buildNodes_sequence: "map n_sequence (buildNodes as) = [0..<length as]"
proof -
  have "map n_sequence (buildNodes as) = map fst (enumerate 0 as)"
    by (simp add: buildNodes_def mkNode_def split_def comp_def)
  then show ?thesis by simp
qed

lemma buildGraph_sequence:
  assumes "buildGraph n p = Some p'"
  shows "map n_sequence (nodes (graph p')) = [0..<length (actions p)]"
proof (cases "format p")
  case AFB
  with assms show ?thesis
    by (auto simp: buildGraph_def buildAFBEdges_def Let_def fold_relEdge_sequence
        buildNodes_sequence)
next
  case AttackFlow
  let ?nm = "buildNodeMap (buildNodes (actions p))"
  let ?g0 = "\<lparr>nodes = buildNodes (actions p), edges = []\<rparr>"
  from assms AttackFlow obtain g1 where
    g1: "forEachOpt (actionEffects n (objects p) ?nm) (actions p) ?g0 = Some g1"
    and gp: "graph p' = fold (\<lambda>rel. relEdge ?nm (o_source_ref rel) (o_target_ref rel))
                          (relationships p) g1"
    by (auto simp: buildGraph_def buildAttackFlowEdges_def Let_def split: option.splits)
  have "map n_sequence (nodes g1) = map n_sequence (nodes ?g0)"
    by (rule forEachOpt_rel [OF g1,
          where R = "\<lambda>a b. map n_sequence (nodes b) = map n_sequence (nodes a)"])
      (auto dest: actionEffects_sequence)
  then show ?thesis
    by (simp add: gp fold_relEdge_sequence buildNodes_sequence)
qed

lemma new_parser_nodes_distinct:
  assumes "new_parser n data = Some (Inr p)"
  shows "distinct (nodes (graph p))"
proof -
  from assms obtain q where "buildGraph n q = Some p"
    by (rule new_parser_buildGraph)
  from buildGraph_sequence [OF this] have "distinct (map n_sequence (nodes (graph p)))"
    by simp
  then show ?thesis by (simp add: distinct_map)
qed

text \<open>
  Claim C6, amended. The group of a tactic name holds exactly the nodes with a truthy
  \<^verbatim>\<open>technique_id\<close> whose tactic name (or, when that name is empty, the guess of
  \<^verbatim>\<open>inferTactic\<close>) is that name, in the order of \<^verbatim>\<open>graph.nodes\<close>; a name
  without such a node has no group, and no name has two groups. In a graph that the
  constructor built, no group holds a node twice.
\<close>

theorem getTactics_groups:
  "map_of (getTactics p) tacticName =
     (if grouped tacticName (nodes (graph p)) = [] then None
      else Some (grouped tacticName (nodes (graph p))))
   \<and> distinct (map fst (getTactics p))
   \<and> (new_parser n data = Some (Inr p) \<longrightarrow>
        distinct (grouped tacticName (nodes (graph p))))"
proof -
  have "distinct (grouped tacticName (nodes (graph p)))" if "new_parser n data = Some (Inr p)"
    using new_parser_nodes_distinct [OF that] by (simp add: grouped_def)
  moreover have "map_of (getTactics p) tacticName =
     (if grouped tacticName (nodes (graph p)) = [] then None
      else Some (grouped tacticName (nodes (graph p))))
   \<and> distinct (map fst (getTactics p))"
    unfolding getTactics_def by (rule fold_getTactics_step)
  ultimately show ?thesis by blast
qed

theorem getTactics_groups_witness:
  "\<exists>p. new_parser 1 technique_doc = Some (Inr p)
     \<and> map_option (map n_id) (map_of (getTactics p) ''Initial Access'')
         = Some [Some ''a'', Some ''b'']
     \<and> distinct (grouped ''Initial Access'' (nodes (graph p)))"
proof -
  have "\<not> Option.is_none (built (new_parser 1 technique_doc))"
    by code_simp
  then obtain p where p: "new_parser 1 technique_doc = Some (Inr p)"
    by (rule built_SomeE)
  note b = built_eq [OF p]
  have "map_option (\<lambda>p. map n_id (grouped ''Initial Access'' (nodes (graph p))))
          (built (new_parser 1 technique_doc)) = Some [Some ''a'', Some ''b'']"
    by code_simp
  then have g: "map n_id (grouped ''Initial Access'' (nodes (graph p))) = [Some ''a'', Some ''b'']"
    unfolding b by simp
  then have "grouped ''Initial Access'' (nodes (graph p)) \<noteq> []"
    by auto
  with getTactics_groups [of p "''Initial Access''" 1 technique_doc] p g
  show ?thesis by auto
qed

section \<open>Nodes of a built STIX graph\<close>

lemma built_stix_nodes:
  assumes "new_parser n data = Some (Inr p)"
    and "format p = AttackFlow"
    and "\<forall>a \<in> set (filter (has_type ''attack-action'') (objs_of data)). truthy (o_id a)"
    and "distinct (map o_id (filter (has_type ''attack-action'') (objs_of data)))"
  shows "length (nodes (graph p)) = length (filter (has_type ''attack-action'') (objs_of data))
    \<and> map n_id (nodes (graph p)) = map o_id (filter (has_type ''attack-action'') (objs_of data))
    \<and> distinct (map n_id (nodes (graph p)))"
proof -
  from assms(1) obtain fmt where "parse n (init_parser data fmt) = Some p"
    by (rule new_parser_Inr)
  note f = parse_fields [OF this]
  from f(1,4) assms(2)
  have a: "actions p = filter (has_type ''attack-action'') (objs_of data)"
    by simp
  have "map n_id (nodes (graph p)) = map actionId (actions p)"
    using assms(1) by (rule new_parser_ids)
  also have "\<dots> = map o_id (actions p)"
    using assms(3) unfolding a by (intro map_cong refl actionId_truthy) simp
  finally have ids: "map n_id (nodes (graph p)) = map o_id (actions p)" .
  then have "length (nodes (graph p)) = length (actions p)"
    by (metis length_map)
  with ids assms(4) show ?thesis
    unfolding a by simp
qed

section \<open>Connectors of a builder document\<close>

text \<open>
  Claim C7. Take a builder-format document in which every action object carries a
  non-empty \<^verbatim>\<open>instance\<close> (a valid document). The constructor returns a parser,
  whatever the bound, and the edges of its graph are, in the order of the document, one
  edge from source to target for each \<^verbatim>\<open>line\<close> or \<^verbatim>\<open>dynamic_line\<close> object whose
  source and target are both ids of actions; the other connectors give no edge.
\<close>

theorem builder_connectors_become_edges:
  assumes "detectFormat data = Inr AFB"
    and "\<forall>obj \<in> set (objs_of data). has_tag ''action'' obj \<longrightarrow> truthy (o_instance obj)"
  shows "\<exists>p. new_parser n data = Some (Inr p)
    \<and> edges (graph p) =
        map (\<lambda>c. edgeOf (o_source c) (o_target c))
          (filter (\<lambda>c. is_line c \<and> resolves data c) (objs_of data))"
proof -
  let ?q = "parseAFB (init_parser data AFB)"
  let ?ns = "buildNodes (actions ?q)"
  let ?nm = "buildNodeMap ?ns"
  let ?g0 = "\<lparr>nodes = ?ns, edges = []\<rparr>"
  let ?p = "?q\<lparr>graph := buildAFBEdges ?q ?nm ?g0\<rparr>"
  have np: "new_parser n data = Some (Inr ?p)"
    using assms(1) by (simp add: new_parser_def parse_def buildGraph_def Let_def)
  have acts: "actions ?q = map afb_action (filter (has_tag ''action'') (objs_of data))"
    by (simp add: parseAFB_actions)
  have rels: "relationships ?q = map afb_relationship (filter is_connector (objs_of data))"
    by (simp add: parseAFB_relationships)
  have "dom ?nm = actionId ` set (actions ?q)"
    by (rule dom_nodeMap_actions)
  also have "\<dots> = afb_action_ids data"
    unfolding acts by (auto simp: afb_action_ids_def image_iff)
  finally have dom: "dom ?nm = afb_action_ids data" .
  have known: "(?nm x \<noteq> None) = (x \<in> afb_action_ids data)" for x
    using dom by (auto simp: dom_def)
  have truthy_id: "truthy x" if "x \<in> afb_action_ids data" for x
    using that assms(2) by (auto simp: afb_action_ids_def)
  have sel: "(is_connector c \<and> o_source c \<in> afb_action_ids data \<and> o_target c \<in> afb_action_ids data)
      = (is_line c \<and> resolves data c)" for c
    using truthy_id by (auto simp: is_connector_def is_line_def resolves_def)
  have ok: "nodeMap_ok ?nm (map n_id (nodes ?g0))"
    by (simp add: buildNodeMap_ok)
  have "edges (graph ?p) =
      map (\<lambda>rel. \<lparr>source = o_source rel, target = o_target rel\<rparr>)
        (filter (\<lambda>rel. ?nm (o_source rel) \<noteq> None \<and> ?nm (o_target rel) \<noteq> None) (relationships ?q))"
    using fold_relEdge_edges [OF ok, of o_source o_target "relationships ?q"]
    by (simp add: buildAFBEdges_def)
  also have "\<dots> = map (\<lambda>c. edgeOf (o_source c) (o_target c))
        (filter (\<lambda>c. is_connector c \<and> o_source c \<in> afb_action_ids data
                       \<and> o_target c \<in> afb_action_ids data) (objs_of data))"
    unfolding rels known by (simp add: filter_map comp_def edgeOf_def)
  finally show ?thesis
    using np unfolding sel by blast
qed

theorem builder_connectors_become_edges_witness:
  "\<exists>p. new_parser 0 afb_doc = Some (Inr p)
     \<and> edges (graph p) = [edgeOf (Some ''x'') (Some ''y'')]"
proof -
  have d: "detectFormat afb_doc = Inr AFB"
    by code_simp
  have v: "\<forall>obj \<in> set (objs_of afb_doc). has_tag ''action'' obj \<longrightarrow> truthy (o_instance obj)"
    by code_simp
  have e: "map (\<lambda>c. edgeOf (o_source c) (o_target c))
          (filter (\<lambda>c. is_line c \<and> resolves afb_doc c) (objs_of afb_doc))
      = [edgeOf (Some ''x'') (Some ''y'')]"
    by code_simp
  from builder_connectors_become_edges [OF d v, of 0] show ?thesis
    unfolding e .
qed

section \<open>Resolution through a condition\<close>

lemma followEffectChain_action:
  assumes "followEffectChain n objs nm src A v = Some v'" "has_type ''attack-action'' A"
  shows "v' = pushEdge nm src (o_id A) v"
  using assms by (cases n) (auto simp: has_type_def Let_def)

lemma follow_refs_edge:
  assumes loop: "forEachOpt (\<lambda>ref g'. case objs ref of None \<Rightarrow> Some g'
             | Some nextNode \<Rightarrow> followEffectChain m objs nm src nextNode g') refs u = Some u'"
    and a: "a \<in> set refs" "objs a = Some A" "has_type ''attack-action'' A"
    and known: "nm src \<noteq> None" "nm (o_id A) \<noteq> None"
  shows "edgeOf src (o_id A) \<in> set (edges u')"
proof -
  let ?follow = "\<lambda>ref g'. case objs ref of None \<Rightarrow> Some g'
             | Some nextNode \<Rightarrow> followEffectChain m objs nm src nextNode g'"
  have step: "grows nm t t'" if "?follow r t = Some t'" for r t t'
    using that by (auto simp: grows_refl split: option.splits dest: followEffectChain_grows)
  obtain v v' where v: "?follow a v = Some v'" and after: "grows nm v' u'"
    by (rule forEachOpt_step [OF loop a(1), of "grows nm"])
      (auto intro: step grows_refl grows_trans)
  from v a(2) have "followEffectChain m objs nm src A v = Some v'" by simp
  then have "v' = pushEdge nm src (o_id A) v"
    using a(3) by (rule followEffectChain_action)
  with known have "edgeOf src (o_id A) \<in> set (edges v')"
    by (simp add: edges_pushEdge edgeOf_def)
  with after show ?thesis by (rule grows_edges_mono)
qed

lemma condition_edges:
  assumes run: "followEffectChain n objs nm src C u = Some u'"
    and C: "has_type ''attack-condition'' C"
    and known: "nm src \<noteq> None"
  shows "o_on_true_refs C = Some ts \<Longrightarrow> a \<in> set ts \<Longrightarrow> objs a = Some A \<Longrightarrow>
           has_type ''attack-action'' A \<Longrightarrow> nm (o_id A) \<noteq> None \<Longrightarrow>
           edgeOf src (o_id A) \<in> set (edges u')"
    and "o_on_false_refs C = Some fs \<Longrightarrow> b \<in> set fs \<Longrightarrow> objs b = Some B \<Longrightarrow>
           has_type ''attack-action'' B \<Longrightarrow> nm (o_id B) \<noteq> None \<Longrightarrow>
           edgeOf src (o_id B) \<in> set (edges u')"
proof -
  from run obtain m where n: "n = Suc m" by (cases n) auto
  let ?follow = "\<lambda>ref g'. case objs ref of None \<Rightarrow> Some g'
             | Some nextNode \<Rightarrow> followEffectChain m objs nm src nextNode g'"
  have step: "grows nm t t'" if "?follow r t = Some t'" for r t t'
    using that by (auto simp: grows_refl split: option.splits dest: followEffectChain_grows)
  have loop: "grows nm t t'" if "forEachOpt ?follow refs t = Some t'" for refs t t'
    using that by (rule forEachOpt_rel) (auto intro: step grows_refl grows_trans)
  from run C obtain g1 where
    g1: "(case o_on_true_refs C of None \<Rightarrow> Some u | Some refs \<Rightarrow> forEachOpt ?follow refs u) = Some g1"
    and u': "(case o_on_false_refs C of None \<Rightarrow> Some g1 | Some refs \<Rightarrow> forEachOpt ?follow refs g1) = Some u'"
    unfolding n by (auto simp: Let_def split: option.splits)
  have g1u': "grows nm g1 u'"
    using u' by (cases "o_on_false_refs C") (auto simp: grows_refl dest: loop)
  show "edgeOf src (o_id A) \<in> set (edges u')"
    if "o_on_true_refs C = Some ts" "a \<in> set ts" "objs a = Some A"
      "has_type ''attack-action'' A" "nm (o_id A) \<noteq> None"
  proof -
    from g1 that(1) have "forEachOpt ?follow ts u = Some g1" by simp
    then have "edgeOf src (o_id A) \<in> set (edges g1)"
      using that(2,3,4) known that(5) by (rule follow_refs_edge)
    with g1u' show ?thesis by (rule grows_edges_mono)
  qed
  show "edgeOf src (o_id B) \<in> set (edges u')"
    if "o_on_false_refs C = Some fs" "b \<in> set fs" "objs b = Some B"
      "has_type ''attack-action'' B" "nm (o_id B) \<noteq> None"
  proof -
    from u' that(1) have "forEachOpt ?follow fs g1 = Some u'" by simp
    then show ?thesis
      using that(2,3,4) known that(5) by (rule follow_refs_edge)
  qed
qed

lemma actionEffects_edge:
  assumes run: "actionEffects n objs nm S t = Some t'"
    and S: "o_effect_refs S = Some refs" "c \<in> set refs" "objs c = Some C"
  obtains u u' where "followEffectChain n objs nm (o_id S) C u = Some u'" "grows nm u' t'"
proof -
  let ?f = "\<lambda>effectRef g'. case objs effectRef of None \<Rightarrow> Some g'
     | Some effectNode \<Rightarrow> followEffectChain n objs nm (o_id S) effectNode g'"
  have step: "grows nm v v'" if "?f r v = Some v'" for r v v'
    using that by (auto simp: grows_refl split: option.splits dest: followEffectChain_grows)
  from run S(1) have loop: "forEachOpt ?f refs t = Some t'"
    by (simp add: actionEffects_def)
  obtain u u' where "?f c u = Some u'" "grows nm u' t'"
    by (rule forEachOpt_step [OF loop S(2), of "grows nm"])
      (auto intro: step grows_refl grows_trans)
  with S(3) that show ?thesis by simp
qed

lemma built_condition_edges:
  assumes built: "new_parser n data = Some (Inr p)" and fmt: "format p = AttackFlow"
    and S: "S \<in> set (actions p)" "o_id S = Some s" "s \<noteq> []"
      "o_effect_refs S = Some refs" "c \<in> set refs"
    and C: "objects p c = Some C" "has_type ''attack-condition'' C"
      "o_on_true_refs C = Some ts" "a \<in> set ts" "o_on_false_refs C = Some fs" "b \<in> set fs"
    and A: "objects p a = Some A" "has_type ''attack-action'' A" "o_id A = Some a" "a \<noteq> []"
    and B: "objects p b = Some B" "has_type ''attack-action'' B" "o_id B = Some b" "b \<noteq> []"
    and noClash: "\<forall>x \<in> set (actions p). actionId x \<noteq> o_id C"
  shows "edgeOf (Some s) (Some a) \<in> set (edges (graph p))
    \<and> edgeOf (Some s) (Some b) \<in> set (edges (graph p))
    \<and> o_id C \<notin> n_id ` set (nodes (graph p))
    \<and> (\<forall>e \<in> set (edges (graph p)). source e \<noteq> o_id C \<and> target e \<noteq> o_id C)"
proof -
  from built obtain fmt' where pr: "parse n (init_parser data fmt') = Some p"
    by (rule new_parser_Inr)
  note f = parse_fields [OF pr]
  from f(1) fmt have fmt': "fmt' = AttackFlow" by simp
  let ?q = "parseAttackFlow (init_parser data AttackFlow)"
  from pr have bg: "buildGraph n ?q = Some p"
    by (simp add: parse_def fmt')
  note q = buildGraph_fields [OF bg]
  let ?nm = "buildNodeMap (buildNodes (actions p))"
  let ?g0 = "\<lparr>nodes = buildNodes (actions p), edges = []\<rparr>"
  have fq: "format ?q = AttackFlow"
    by (simp add: parseAttackFlow_def)
  from bg obtain g1 where
    g1: "forEachOpt (actionEffects n (objects p) ?nm) (actions p) ?g0 = Some g1"
    and gp: "graph p = fold (\<lambda>rel. relEdge ?nm (o_source_ref rel) (o_target_ref rel))
                         (relationships p) g1"
    unfolding buildGraph_def Let_def fq q(3)[symmetric] q(4)[symmetric] q(5)[symmetric]
    by (auto simp: buildAttackFlowEdges_def split: option.splits)
  have ok0: "nodeMap_ok ?nm (map n_id (nodes ?g0))"
    by (simp add: buildNodeMap_ok)
  have g0g1: "grows ?nm ?g0 g1"
    by (rule forEachOpt_rel [OF g1]) (auto intro: actionEffects_grows grows_refl grows_trans)
  then have "nodeMap_ok ?nm (map n_id (nodes g1))"
    using ok0 by (rule grows_nodeMap_ok)
  then have g1p: "grows ?nm g1 (graph p)"
    unfolding gp by (rule fold_relEdge_grows)
  have dom: "dom ?nm = actionId ` set (actions p)"
    by (rule dom_nodeMap_actions)
  have inActions: "x \<in> set (actions p)"
    if "objects p k = Some x" "has_type ''attack-action'' x" for k x
  proof -
    from that(1) have "objects ?q k = Some x" by (simp add: q(5))
    then have "x \<in> set (objs_of data)"
      by (auto simp: parseAttackFlow_def dest: fold_parseAttackFlow_step_objects_Some)
    with that(2) f(4) fmt' show ?thesis by simp
  qed
  have knownS: "?nm (Some s) \<noteq> None"
    using S(1,2,3) dom by (force simp: dom_def actionId_def js_or_def truthy_def)
  have knownA: "?nm (o_id A) \<noteq> None"
    using inActions [OF A(1,2)] A(3,4) dom
    by (force simp: dom_def actionId_def js_or_def truthy_def)
  have knownB: "?nm (o_id B) \<noteq> None"
    using inActions [OF B(1,2)] B(3,4) dom
    by (force simp: dom_def actionId_def js_or_def truthy_def)
  obtain t t' where t: "actionEffects n (objects p) ?nm S t = Some t'" and t'g1: "grows ?nm t' g1"
    by (rule forEachOpt_step [OF g1 S(1), of "grows ?nm"])
      (auto intro: actionEffects_grows grows_refl grows_trans)
  obtain u u' where u: "followEffectChain n (objects p) ?nm (o_id S) C u = Some u'"
    and u't': "grows ?nm u' t'"
    using t S(4,5) C(1) by (rule actionEffects_edge)
  have final: "e \<in> set (edges (graph p))" if "e \<in> set (edges u')" for e
    using that u't' t'g1 g1p by (blast intro: grows_edges_mono)
  from knownS S(2) have knownS': "?nm (o_id S) \<noteq> None" by simp
  have "edgeOf (o_id S) (o_id A) \<in> set (edges u')"
    using condition_edges(1) [OF u C(2) knownS' C(3,4) A(1,2) knownA] .
  then have ea: "edgeOf (Some s) (Some a) \<in> set (edges (graph p))"
    using final S(2) A(3) by simp
  have "edgeOf (o_id S) (o_id B) \<in> set (edges u')"
    using condition_edges(2) [OF u C(2) knownS' C(5,6) B(1,2) knownB] .
  then have eb: "edgeOf (Some s) (Some b) \<in> set (edges (graph p))"
    using final S(2) B(3) by simp
  have ids: "n_id ` set (nodes (graph p)) = actionId ` set (actions p)"
    using new_parser_ids [OF built] by (metis list.set_map)
  have notNode: "o_id C \<notin> n_id ` set (nodes (graph p))"
    unfolding ids using noClash by auto
  have notEnd: "source e \<noteq> o_id C \<and> target e \<noteq> o_id C" if "e \<in> set (edges (graph p))" for e
    using new_parser_edges_closed [OF built that] noClash by auto
  from ea eb notNode notEnd show ?thesis by blast
qed

section \<open>Termination of edge resolution\<close>

lemma forEachOpt_mono:
  assumes "forEachOpt f xs s = Some s'"
    and "\<And>x t t'. x \<in> set xs \<Longrightarrow> f x t = Some t' \<Longrightarrow> f' x t = Some t'"
  shows "forEachOpt f' xs s = Some s'"
  using assms
proof (induction xs arbitrary: s)
  case Nil
  then show ?case by simp
next
  case (Cons x xs)
  from Cons.prems(1) obtain t where t: "f x s = Some t" "forEachOpt f xs t = Some s'"
    by (auto split: option.splits)
  from t(1) have "f' x s = Some t" by (simp add: Cons.prems(2))
  moreover have "forEachOpt f' xs t = Some s'"
    using t(2) Cons.prems(2) by (intro Cons.IH) simp_all
  ultimately show ?case by simp
qed

lemma followEffectChain_Suc:
  "followEffectChain n objs nm s e g = Some g' \<Longrightarrow> followEffectChain (Suc n) objs nm s e g = Some g'"
proof (induction n arbitrary: e g g')
  case 0
  then show ?case by simp
next
  case (Suc n)
  let ?f = "\<lambda>k ref g'. case objs ref of None \<Rightarrow> Some g'
                   | Some nextNode \<Rightarrow> followEffectChain k objs nm s nextNode g'"
  have step: "?f (Suc n) r t = Some t'" if "?f n r t = Some t'" for r t t'
    using that Suc.IH by (cases "objs r") (simp_all del: followEffectChain.simps)
  have loop: "forEachOpt (?f (Suc n)) refs t = Some t'"
    if "forEachOpt (?f n) refs t = Some t'" for refs t t'
    using that by (rule forEachOpt_mono) (rule step)
  have opt: "(case refs of None \<Rightarrow> Some t | Some rs \<Rightarrow> forEachOpt (?f (Suc n)) rs t) = Some t'"
    if "(case refs of None \<Rightarrow> Some t | Some rs \<Rightarrow> forEachOpt (?f n) rs t) = Some t'"
    for refs t t'
    using that by (cases refs) (auto dest: loop simp del: followEffectChain.simps)
  show ?case
  proof (cases "has_type ''attack-condition'' e")
    case True
    from Suc.prems True obtain g1 where
      a: "(case o_on_true_refs e of None \<Rightarrow> Some g | Some rs \<Rightarrow> forEachOpt (?f n) rs g) = Some g1"
      and b: "(case o_on_false_refs e of None \<Rightarrow> Some g1 | Some rs \<Rightarrow> forEachOpt (?f n) rs g1) = Some g'"
      by (auto simp: Let_def split: option.splits)
    from a have
      "(case o_on_true_refs e of None \<Rightarrow> Some g | Some rs \<Rightarrow> forEachOpt (?f (Suc n)) rs g) = Some g1"
      by (rule opt)
    moreover from b have
      "(case o_on_false_refs e of None \<Rightarrow> Some g1 | Some rs \<Rightarrow> forEachOpt (?f (Suc n)) rs g1) = Some g'"
      by (rule opt)
    ultimately show ?thesis using True
      by (subst followEffectChain.simps(2)) (simp add: Let_def del: followEffectChain.simps)
  next
    case False
    note nc = this
    show ?thesis
    proof (cases "has_type ''attack-operator'' e")
      case True
      from Suc.prems True nc have
        "(case o_effect_refs e of None \<Rightarrow> Some g | Some rs \<Rightarrow> forEachOpt (?f n) rs g) = Some g'"
        by (simp add: Let_def)
      then have
        "(case o_effect_refs e of None \<Rightarrow> Some g | Some rs \<Rightarrow> forEachOpt (?f (Suc n)) rs g) = Some g'"
        by (rule opt)
      with True nc show ?thesis
        by (subst followEffectChain.simps(2)) (simp add: Let_def del: followEffectChain.simps)
    next
      case False
      with Suc.prems nc have
        "(if has_type ''attack-action'' e then Some (pushEdge nm s (o_id e) g) else Some g) = Some g'"
        by (simp add: Let_def)
      with nc False show ?thesis
        by (subst followEffectChain.simps(2)) (simp add: Let_def del: followEffectChain.simps)
    qed
  qed
qed

declare followEffectChain.simps [simp del]

lemma followEffectChain_mono:
  "followEffectChain n objs nm s e g = Some g' \<Longrightarrow> n \<le> m \<Longrightarrow>
     followEffectChain m objs nm s e g = Some g'"
  by (induction m) (auto simp: le_Suc_eq dest: followEffectChain_Suc)

lemma followEffectChain_total:
  assumes table: "\<And>k obj. objs k = Some obj \<Longrightarrow> obj \<in> set os \<and> key (o_id obj) = k"
    and ranked: "ranked rank os"
  shows "e \<in> set os \<Longrightarrow> rank e < n \<Longrightarrow> \<exists>g'. followEffectChain n objs nm s e g = Some g'"
proof (induction n arbitrary: e g)
  case 0
  then show ?case by simp
next
  case (Suc n)
  let ?follow = "\<lambda>ref g'. case objs ref of None \<Rightarrow> Some g'
                   | Some nextNode \<Rightarrow> followEffectChain n objs nm s nextNode g'"
  have step: "\<exists>t'. ?follow r t = Some t'" if "r \<in> set (routing_refs e)" for r t
  proof (cases "objs r")
    case None
    then show ?thesis by simp
  next
    case (Some nxt)
    from table [OF Some] have nxt: "nxt \<in> set os" "key (o_id nxt) = r" by simp_all
    with ranked Suc.prems(1) that have "rank nxt < rank e"
      by (auto simp: ranked_def)
    with Suc.prems(2) have "rank nxt < n" by simp
    from Suc.IH [OF nxt(1) this] Some show ?thesis by simp
  qed
  note followEffectChain.simps [simp]
  have loop: "\<exists>t'. forEachOpt ?follow refs t = Some t'"
    if "set refs \<subseteq> set (routing_refs e)" for refs t
    using that by (intro forEachOpt_total step) auto
  show ?case
  proof (cases "has_type ''attack-condition'' e")
    case True
    have "\<exists>g1. (case o_on_true_refs e of None \<Rightarrow> Some g
                  | Some refs \<Rightarrow> forEachOpt ?follow refs g) = Some g1"
      using True by (cases "o_on_true_refs e") (auto simp: routing_refs_def intro!: loop)
    then obtain g1 where g1: "(case o_on_true_refs e of None \<Rightarrow> Some g
                  | Some refs \<Rightarrow> forEachOpt ?follow refs g) = Some g1" ..
    have "\<exists>g2. (case o_on_false_refs e of None \<Rightarrow> Some g1
                  | Some refs \<Rightarrow> forEachOpt ?follow refs g1) = Some g2"
      using True by (cases "o_on_false_refs e") (auto simp: routing_refs_def intro!: loop)
    with True g1 show ?thesis by (simp add: Let_def)
  next
    case False
    note nc = this
    show ?thesis
    proof (cases "has_type ''attack-operator'' e")
      case True
      have "\<exists>g1. (case o_effect_refs e of None \<Rightarrow> Some g
                  | Some refs \<Rightarrow> forEachOpt ?follow refs g) = Some g1"
        using True nc by (cases "o_effect_refs e") (auto simp: routing_refs_def intro!: loop)
      with True nc show ?thesis by (simp add: Let_def)
    next
      case False
      with nc show ?thesis by (simp add: Let_def)
    qed
  qed
qed

lemma actionEffects_mono:
  assumes "actionEffects n objs nm a g = Some g'" "n \<le> m"
  shows "actionEffects m objs nm a g = Some g'"
proof (cases "o_effect_refs a")
  case None
  with assms show ?thesis by (simp add: actionEffects_def)
next
  case (Some refs)
  let ?f = "\<lambda>k effectRef g'. case objs effectRef of None \<Rightarrow> Some g'
     | Some effectNode \<Rightarrow> followEffectChain k objs nm (o_id a) effectNode g'"
  from assms(1) Some have "forEachOpt (?f n) refs g = Some g'"
    by (simp add: actionEffects_def)
  then have "forEachOpt (?f m) refs g = Some g'"
    by (rule forEachOpt_mono)
      (auto split: option.splits dest: followEffectChain_mono [OF _ assms(2)])
  with Some show ?thesis by (simp add: actionEffects_def)
qed

lemma buildGraph_mono:
  assumes "buildGraph n p = Some p'" "n \<le> m"
  shows "buildGraph m p = Some p'"
proof (cases "format p")
  case AFB
  with assms show ?thesis by (simp add: buildGraph_def)
next
  case AttackFlow
  let ?nm = "buildNodeMap (buildNodes (actions p))"
  let ?g0 = "\<lparr>nodes = buildNodes (actions p), edges = []\<rparr>"
  from assms(1) AttackFlow obtain g1 where
    g1: "forEachOpt (actionEffects n (objects p) ?nm) (actions p) ?g0 = Some g1"
    by (auto simp: buildGraph_def buildAttackFlowEdges_def Let_def split: option.splits)
  then have "forEachOpt (actionEffects m (objects p) ?nm) (actions p) ?g0 = Some g1"
    by (rule forEachOpt_mono) (rule actionEffects_mono [OF _ assms(2)])
  with g1 assms(1) AttackFlow show ?thesis
    by (simp add: buildGraph_def buildAttackFlowEdges_def Let_def)
qed

lemma new_parser_mono:
  assumes "new_parser n data = Some r" "n \<le> m"
  shows "new_parser m data = Some r"
  using assms
  by (auto simp: new_parser_def parse_def split: sum.splits option.splits
      dest: buildGraph_mono)

lemma actionEffects_total:
  assumes table: "\<And>k obj. objs k = Some obj \<Longrightarrow> obj \<in> set os \<and> key (o_id obj) = k"
    and ranked: "ranked rank os" and n: "sum_list (map rank os) < n"
  shows "\<exists>g'. actionEffects n objs nm a g = Some g'"
proof (cases "o_effect_refs a")
  case None
  then show ?thesis by (simp add: actionEffects_def)
next
  case (Some refs)
  have "\<exists>t'. (case objs r of None \<Rightarrow> Some t
     | Some effectNode \<Rightarrow> followEffectChain n objs nm (o_id a) effectNode t) = Some t'" for r t
  proof (cases "objs r")
    case None
    then show ?thesis by simp
  next
    case (Some e)
    from table [OF Some] have e: "e \<in> set os" by simp
    then have "rank e \<le> sum_list (map rank os)"
      by (simp add: member_le_sum_list)
    with n have "rank e < n" by simp
    from followEffectChain_total [of objs os rank, OF table ranked e this] Some
    show ?thesis by simp
  qed
  then have "\<exists>g'. forEachOpt (\<lambda>effectRef g'. case objs effectRef of None \<Rightarrow> Some g'
     | Some effectNode \<Rightarrow> followEffectChain n objs nm (o_id a) effectNode g') refs g = Some g'"
    by (intro forEachOpt_total)
  with Some show ?thesis by (simp add: actionEffects_def)
qed

lemma new_parser_total:
  assumes "ranked rank (objs_of data)" "sum_list (map rank (objs_of data)) < n"
  shows "\<exists>r. new_parser n data = Some r"
proof (cases "detectFormat data")
  case (Inl e)
  then show ?thesis by (simp add: new_parser_def)
next
  case (Inr fmt)
  show ?thesis
  proof (cases fmt)
    case AFB
    with Inr show ?thesis
      by (simp add: new_parser_def parse_def buildGraph_def Let_def)
  next
    case AttackFlow
    let ?q = "parseAttackFlow (init_parser data AttackFlow)"
    have table: "obj \<in> set (objs_of data) \<and> key (o_id obj) = k"
      if "objects ?q k = Some obj" for k obj
      using that
      by (auto simp: parseAttackFlow_def dest: fold_parseAttackFlow_step_objects_Some)
    have "\<exists>g1. forEachOpt (actionEffects n (objects ?q) nm) (actions ?q) g = Some g1" for nm g
      by (intro forEachOpt_total actionEffects_total [of _ _ rank, OF table assms]) 
    then have "\<exists>p. buildGraph n ?q = Some p"
      by (cases "format ?q")
        (auto simp: buildGraph_def buildAttackFlowEdges_def Let_def split: option.splits)
    with Inr AttackFlow show ?thesis
      by (auto simp: new_parser_def parse_def)
  qed
qed

lemma new_parser_returns:
  assumes "ranked rank (objs_of data)"
  shows "\<exists>r. (\<forall>n > sum_list (map rank (objs_of data)). new_parser n data = Some r)
    \<and> (\<forall>n r'. new_parser n data = Some r' \<longrightarrow> r' = r)"
proof -
  let ?N = "Suc (sum_list (map rank (objs_of data)))"
  from new_parser_total [OF assms, of ?N] obtain r where r: "new_parser ?N data = Some r"
    by auto
  have all: "new_parser n data = Some r" if "sum_list (map rank (objs_of data)) < n" for n
    using r by (rule new_parser_mono) (use that in simp)
  have "r' = r" if "new_parser n data = Some r'" for n r'
  proof -
    from that have "new_parser (max n ?N) data = Some r'"
      by (rule new_parser_mono) simp
    moreover have "new_parser (max n ?N) data = Some r"
      by (rule all) simp
    ultimately show ?thesis by simp
  qed
  with all show ?thesis by blast
qed

lemma new_parser_stix:
  assumes "new_parser n data = Some r" "detectFormat data = Inr AttackFlow"
  obtains p where "r = Inr p" "format p = AttackFlow" "actions p = stixActions data"
    "objects p = objectTable data"
proof -
  from assms obtain p where r: "r = Inr p" and pr: "parse n (init_parser data AttackFlow) = Some p"
    by (auto simp: new_parser_def split: option.splits)
  note f = parse_fields [OF pr]
  from pr have "buildGraph n (parseAttackFlow (init_parser data AttackFlow)) = Some p"
    by (simp add: parse_def)
  from buildGraph_fields(5) [OF this] have "objects p = objectTable data"
    by (simp add: objectTable_def)
  with r f(1,4) that show ?thesis
    by (simp add: stixActions_def)
qed

lemma forEachOpt_None:
  assumes "x \<in> set xs" "\<And>t. f x t = None"
  shows "forEachOpt f xs s = None"
  using assms by (induction xs arbitrary: s) (auto split: option.splits)

lemma self_reference_diverges:
  assumes "objs k = Some C" "has_type ''attack-condition'' C" "o_on_true_refs C = Some [k]"
  shows "followEffectChain n objs nm s C g = None"
proof (induction n arbitrary: g)
  case 0
  show ?case by (simp add: followEffectChain.simps)
next
  case (Suc n)
  with assms show ?case
    by (simp add: followEffectChain.simps Let_def)
qed

lemma self_condition_diverges:
  assumes "objs ''c'' = Some self_condition"
  shows "followEffectChain n objs nm s self_condition g = None"
proof (induction n arbitrary: g)
  case 0
  show ?case by (simp add: followEffectChain.simps)
next
  case (Suc n)
  have "has_type ''attack-condition'' self_condition"
    "o_on_true_refs self_condition = Some [''c'']"
    by (simp_all add: self_condition_def has_type_def)
  with assms Suc show ?case
    by (simp add: followEffectChain.simps Let_def)
qed

text \<open>
  Claim C1 as stated fails: \<^verbatim>\<open>followEffectChain\<close> keeps no record of the nodes it
  has processed. In \<open>cyclic_doc\<close> the action \<^verbatim>\<open>s\<close> has the effect \<^verbatim>\<open>c\<close>, a
  condition whose \<^verbatim>\<open>on_true_refs\<close> name \<^verbatim>\<open>c\<close> again; no number of nested calls
  suffices, so the constructor does not return.
\<close>

theorem cyclic_condition_never_resolves:
  "\<forall>n. new_parser n cyclic_doc = None"
proof
  fix n
  let ?q = "parseAttackFlow (init_parser cyclic_doc AttackFlow)"
  have d: "detectFormat cyclic_doc = Inr AttackFlow"
    by code_simp
  have acts: "actions ?q = [source_action]"
    by code_simp
  have tab: "objects ?q ''c'' = Some self_condition"
    by code_simp
  have "o_effect_refs source_action = Some [''c'']"
    by (simp add: source_action_def)
  with tab have "actionEffects n (objects ?q) nm source_action g = None" for nm g
    by (simp add: actionEffects_def self_condition_diverges)
  then have "forEachOpt (actionEffects n (objects ?q) nm) (actions ?q) g = None" for nm g
    unfolding acts by simp
  moreover have "format ?q = AttackFlow"
    by (simp add: parseAttackFlow_def)
  ultimately have "buildGraph n ?q = None"
    by (simp add: buildGraph_def buildAttackFlowEdges_def Let_def)
  with d show "new_parser n cyclic_doc = None"
    by (simp add: new_parser_def parse_def)
qed

text \<open>
  Claim C1, amended. When the routing of the document is well-founded, edge resolution
  terminates: the constructor returns, and returns the same result for every bound above
  the sum of the ranks.
\<close>

theorem edge_resolution_terminates_when_ranked:
  assumes "ranked rank (objs_of data)"
  shows "\<exists>r. \<forall>n > sum_list (map rank (objs_of data)). new_parser n data = Some r"
proof -
  let ?N = "Suc (sum_list (map rank (objs_of data)))"
  from new_parser_total [OF assms, of ?N] obtain r where r: "new_parser ?N data = Some r"
    by auto
  have "new_parser n data = Some r" if "sum_list (map rank (objs_of data)) < n" for n
    using r by (rule new_parser_mono) (use that in simp)
  then show ?thesis by blast
qed

theorem edge_resolution_terminates_when_ranked_witness:
  "ranked condition_rank (objs_of condition_doc)
   \<and> (\<exists>r. new_parser 2 condition_doc = Some r)"
proof -
  have r: "ranked condition_rank (objs_of condition_doc)"
    by code_simp
  have "sum_list (map condition_rank (objs_of condition_doc)) = 1"
    by code_simp
  with edge_resolution_terminates_when_ranked [OF r] have "\<exists>r. new_parser 2 condition_doc = Some r"
    by auto
  with r show ?thesis ..
qed

section \<open>Nodes of a STIX document\<close>

text \<open>
  Claim C8. Take a valid STIX document: a bundle that \<^verbatim>\<open>detectFormat\<close> accepts, in
  which every \<^verbatim>\<open>attack-action\<close> object carries a non-empty id, no two of them carry
  the same id, and the routing is well-founded. The constructor returns a parser (the
  same for every bound above the sum of the ranks, and nothing else for any bound). Its
  graph has as many nodes as the document has \<^verbatim>\<open>attack-action\<close> objects, the ids of
  the nodes are, in order, the ids of these objects, and no two nodes have the same id.
\<close>

theorem stix_nodes_match_actions:
  assumes "detectFormat data = Inr AttackFlow"
    and "\<forall>a \<in> set (stixActions data). truthy (o_id a)"
    and "distinct (map o_id (stixActions data))"
    and "ranked rank (objs_of data)"
  shows "\<exists>p. (\<forall>n > sum_list (map rank (objs_of data)). new_parser n data = Some (Inr p))
    \<and> (\<forall>n r. new_parser n data = Some r \<longrightarrow> r = Inr p)
    \<and> length (nodes (graph p)) = length (stixActions data)
    \<and> map n_id (nodes (graph p)) = map o_id (stixActions data)
    \<and> distinct (map n_id (nodes (graph p)))"
proof -
  let ?N = "Suc (sum_list (map rank (objs_of data)))"
  from new_parser_returns [OF assms(4)] obtain r where
    all: "\<forall>n > sum_list (map rank (objs_of data)). new_parser n data = Some r"
    and only: "\<forall>n r'. new_parser n data = Some r' \<longrightarrow> r' = r"
    by blast
  from all have N: "new_parser ?N data = Some r" by simp
  from N assms(1) obtain p where r: "r = Inr p" and fmt: "format p = AttackFlow"
    by (rule new_parser_stix)
  from N r have np: "new_parser ?N data = Some (Inr p)" by simp
  from built_stix_nodes [OF np fmt] assms(2,3)
  have "length (nodes (graph p)) = length (stixActions data)
    \<and> map n_id (nodes (graph p)) = map o_id (stixActions data)
    \<and> distinct (map n_id (nodes (graph p)))"
    by (simp add: stixActions_def)
  with all only show ?thesis
    unfolding r by blast
qed

theorem stix_nodes_match_actions_witness:
  "\<exists>p. new_parser 1 flow_doc = Some (Inr p)
     \<and> map n_id (nodes (graph p)) = [Some ''a'', Some ''b'']
     \<and> length (nodes (graph p)) = 2"
proof -
  have d: "detectFormat flow_doc = Inr AttackFlow"
    by code_simp
  have v: "\<forall>a \<in> set (stixActions flow_doc). truthy (o_id a)"
    "distinct (map o_id (stixActions flow_doc))"
    "ranked condition_rank (objs_of flow_doc)"
    by code_simp+
  have l: "map o_id (stixActions flow_doc) = [Some ''a'', Some ''b'']"
    "length (stixActions flow_doc) = 2"
    "sum_list (map condition_rank (objs_of flow_doc)) = 0"
    by code_simp+
  from stix_nodes_match_actions [OF d v] show ?thesis
    unfolding l by auto
qed

section \<open>Resolution through a condition: the claim\<close>

text \<open>
  Claim C3 as stated fails: it promises the two edges for every document that has the
  action, the condition and the two branches, but when another routing chain of the
  document reaches a condition again, edge resolution does not end and no graph is
  built. \<open>condition_loop_doc\<close> has the action \<^verbatim>\<open>s\<close> with the effect \<^verbatim>\<open>c\<close>, the
  condition \<^verbatim>\<open>c\<close> with the branches \<^verbatim>\<open>a\<close> and \<^verbatim>\<open>b\<close>, and besides them an action
  \<^verbatim>\<open>t\<close> whose effect is a condition that names itself; the constructor returns for no
  bound.
\<close>

theorem condition_edges_lost_to_unrelated_cycle:
  "(\<forall>n. new_parser n condition_loop_doc = None)
   \<and> source_action \<in> set (stixActions condition_loop_doc)
   \<and> o_effect_refs source_action = Some [''c'']
   \<and> objectTable condition_loop_doc ''c'' = Some condition_obj
   \<and> o_on_true_refs condition_obj = Some [''a'']
   \<and> o_on_false_refs condition_obj = Some [''b'']
   \<and> objectTable condition_loop_doc ''a'' = Some (stix_action ''a'')
   \<and> objectTable condition_loop_doc ''b'' = Some (stix_action ''b'')"
proof -
  let ?q = "parseAttackFlow (init_parser condition_loop_doc AttackFlow)"
  have d: "detectFormat condition_loop_doc = Inr AttackFlow"
    by code_simp
  have acts: "actions ?q = [source_action, stix_action ''a'', stix_action ''b'', loop_action]"
    by code_simp
  have tab: "objects ?q ''d'' = Some loop_condition"
    by code_simp
  have lc: "has_type ''attack-condition'' loop_condition"
    "o_on_true_refs loop_condition = Some [''d'']"
    by (simp_all add: loop_condition_def has_type_def)
  have "o_effect_refs loop_action = Some [''d'']"
    by (simp add: loop_action_def)
  moreover have "followEffectChain n (objects ?q) nm i loop_condition g = None" for n nm i g
    using tab lc by (rule self_reference_diverges)
  ultimately have "actionEffects n (objects ?q) nm loop_action g = None" for n nm g
    using tab by (simp add: actionEffects_def)
  then have "forEachOpt (actionEffects n (objects ?q) nm) (actions ?q) g = None" for n nm g
    unfolding acts by (intro forEachOpt_None [where x = loop_action]) simp_all
  moreover have "format ?q = AttackFlow"
    by (simp add: parseAttackFlow_def)
  ultimately have "buildGraph n ?q = None" for n
    by (simp add: buildGraph_def buildAttackFlowEdges_def Let_def)
  with d have none: "\<forall>n. new_parser n condition_loop_doc = None"
    by (simp add: new_parser_def parse_def)
  have facts: "source_action \<in> set (stixActions condition_loop_doc)"
    "o_effect_refs source_action = Some [''c'']"
    "objectTable condition_loop_doc ''c'' = Some condition_obj"
    "o_on_true_refs condition_obj = Some [''a'']"
    "o_on_false_refs condition_obj = Some [''b'']"
    "objectTable condition_loop_doc ''a'' = Some (stix_action ''a'')"
    "objectTable condition_loop_doc ''b'' = Some (stix_action ''b'')"
    by code_simp+
  from none facts show ?thesis by simp
qed

text \<open>
  Claim C3, amended. Take a STIX bundle that \<^verbatim>\<open>detectFormat\<close> accepts and whose
  routing is well-founded. Let \<open>S\<close> be an action with the non-empty id \<open>s\<close> that has an
  effect reference \<open>c\<close>; let \<open>c\<close> resolve in the object table to a condition \<open>C\<close> whose
  \<^verbatim>\<open>on_true_refs\<close> contain \<open>a\<close> and whose \<^verbatim>\<open>on_false_refs\<close> contain \<open>b\<close>; let \<open>a\<close>
  and \<open>b\<close> resolve to actions with these (non-empty) ids; and let no action be
  identified by the id of the condition. Then the constructor returns a parser (the same
  for every bound above the sum of the ranks, and nothing else for any bound); its graph
  has the edges \<open>(s, a)\<close> and \<open>(s, b)\<close>, and the id of the condition is neither the id of
  a node nor an endpoint of an edge.
\<close>

theorem condition_branches_become_direct_edges:
  assumes det: "detectFormat data = Inr AttackFlow"
    and ranked: "ranked rank (objs_of data)"
    and S: "S \<in> set (stixActions data)" "o_id S = Some s" "s \<noteq> []"
      "o_effect_refs S = Some refs" "c \<in> set refs"
    and C: "objectTable data c = Some C" "has_type ''attack-condition'' C"
      "o_on_true_refs C = Some ts" "a \<in> set ts" "o_on_false_refs C = Some fs" "b \<in> set fs"
    and A: "objectTable data a = Some A" "has_type ''attack-action'' A" "o_id A = Some a"
      "a \<noteq> []"
    and B: "objectTable data b = Some B" "has_type ''attack-action'' B" "o_id B = Some b"
      "b \<noteq> []"
    and noClash: "\<forall>x \<in> set (stixActions data). actionId x \<noteq> o_id C"
  shows "\<exists>p. (\<forall>n > sum_list (map rank (objs_of data)). new_parser n data = Some (Inr p))
    \<and> (\<forall>n r. new_parser n data = Some r \<longrightarrow> r = Inr p)
    \<and> edgeOf (Some s) (Some a) \<in> set (edges (graph p))
    \<and> edgeOf (Some s) (Some b) \<in> set (edges (graph p))
    \<and> o_id C \<notin> n_id ` set (nodes (graph p))
    \<and> (\<forall>e \<in> set (edges (graph p)). source e \<noteq> o_id C \<and> target e \<noteq> o_id C)"
proof -
  let ?N = "Suc (sum_list (map rank (objs_of data)))"
  from new_parser_returns [OF ranked] obtain r where
    all: "\<forall>n > sum_list (map rank (objs_of data)). new_parser n data = Some r"
    and only: "\<forall>n r'. new_parser n data = Some r' \<longrightarrow> r' = r"
    by blast
  from all have N: "new_parser ?N data = Some r" by simp
  from N det obtain p where r: "r = Inr p" and fmt: "format p = AttackFlow"
    and acts: "actions p = stixActions data" and tab: "objects p = objectTable data"
    by (rule new_parser_stix)
  from N r have np: "new_parser ?N data = Some (Inr p)" by simp
  have "edgeOf (Some s) (Some a) \<in> set (edges (graph p))
    \<and> edgeOf (Some s) (Some b) \<in> set (edges (graph p))
    \<and> o_id C \<notin> n_id ` set (nodes (graph p))
    \<and> (\<forall>e \<in> set (edges (graph p)). source e \<noteq> o_id C \<and> target e \<noteq> o_id C)"
    by (rule built_condition_edges [OF np fmt _ S(2,3,4,5) _ C(2,3,4,5,6) _ A(2,3,4) _ B(2,3,4)])
      (use S(1) C(1) A(1) B(1) noClash in \<open>simp_all add: acts tab\<close>)
  with all only show ?thesis
    unfolding r by blast
qed

theorem condition_branches_become_direct_edges_witness:
  "\<exists>p. new_parser 2 condition_doc = Some (Inr p)
     \<and> edgeOf (Some ''s'') (Some ''a'') \<in> set (edges (graph p))
     \<and> edgeOf (Some ''s'') (Some ''b'') \<in> set (edges (graph p))
     \<and> Some ''c'' \<notin> n_id ` set (nodes (graph p))"
proof -
  have d: "detectFormat condition_doc = Inr AttackFlow"
    by code_simp
  have rk: "ranked condition_rank (objs_of condition_doc)"
    by code_simp
  have S: "source_action \<in> set (stixActions condition_doc)" "o_id source_action = Some ''s''"
    "''s'' \<noteq> []" "o_effect_refs source_action = Some [''c'']" "''c'' \<in> set [''c'']"
    by code_simp+
  have C: "objectTable condition_doc ''c'' = Some condition_obj"
    "has_type ''attack-condition'' condition_obj"
    "o_on_true_refs condition_obj = Some [''a'']" "''a'' \<in> set [''a'']"
    "o_on_false_refs condition_obj = Some [''b'']" "''b'' \<in> set [''b'']"
    by code_simp+
  have A: "objectTable condition_doc ''a'' = Some (stix_action ''a'')"
    "has_type ''attack-action'' (stix_action ''a'')" "o_id (stix_action ''a'') = Some ''a''"
    "''a'' \<noteq> []"
    by code_simp+
  have B: "objectTable condition_doc ''b'' = Some (stix_action ''b'')"
    "has_type ''attack-action'' (stix_action ''b'')" "o_id (stix_action ''b'') = Some ''b''"
    "''b'' \<noteq> []"
    by code_simp+
  have noClash: "\<forall>x \<in> set (stixActions condition_doc). actionId x \<noteq> o_id condition_obj"
    by code_simp
  have c: "o_id condition_obj = Some ''c''"
    by (simp add: condition_obj_def)
  have l: "sum_list (map condition_rank (objs_of condition_doc)) = 1"
    by code_simp
  from condition_branches_become_direct_edges [OF d rk S C A B noClash]
  show ?thesis
    unfolding c l by auto
qed

section \<open>Edges join nodes\<close>

text \<open>
  Claim C9. In either format, for a document that \<^verbatim>\<open>detectFormat\<close> accepts.
  First, no reference aborts the parse: when the routing of the document is
  well-founded the constructor returns, whatever the references that name no object.
  Second, whenever the constructor returns it returns a parser and not an error, and
  every edge of its graph has its source and its target among the ids of the nodes.
  Third, when the actions carry their id (every \<^verbatim>\<open>attack-action\<close> object of a bundle
  has a non-empty \<^verbatim>\<open>id\<close>, as section 6 of the specification describes it), every
  endpoint of an edge is also a key of the object table \<^verbatim>\<open>this.objects\<close>: what
  refers to an id absent from the table has left no edge.
\<close>

theorem edges_connect_nodes:
  assumes "detectFormat data = Inr fmt"
  shows "(ranked rank (objs_of data) \<longrightarrow>
           (\<exists>r. \<forall>n > sum_list (map rank (objs_of data)). new_parser n data = Some r))
    \<and> (\<forall>n r. new_parser n data = Some r \<longrightarrow>
          (\<exists>p. r = Inr p
             \<and> (\<forall>e \<in> set (edges (graph p)).
                   source e \<in> n_id ` set (nodes (graph p))
                 \<and> target e \<in> n_id ` set (nodes (graph p)))
             \<and> ((\<forall>a \<in> set (actions p). fmt = AttackFlow \<longrightarrow> truthy (o_id a)) \<longrightarrow>
                 (\<forall>e \<in> set (edges (graph p)).
                    key (source e) \<in> dom (objects p) \<and> key (target e) \<in> dom (objects p)))))"
proof (intro conjI impI allI)
  assume ranked: "ranked rank (objs_of data)"
  let ?N = "Suc (sum_list (map rank (objs_of data)))"
  from new_parser_total [OF ranked, of ?N] obtain r where r: "new_parser ?N data = Some r"
    by auto
  have "new_parser n data = Some r" if "sum_list (map rank (objs_of data)) < n" for n
    using r by (rule new_parser_mono) (use that in simp)
  then show "\<exists>r. \<forall>n > sum_list (map rank (objs_of data)). new_parser n data = Some r"
    by blast
next
  fix n r
  assume ret: "new_parser n data = Some r"
  from ret assms obtain p where r: "r = Inr p" and pr: "parse n (init_parser data fmt) = Some p"
    by (auto simp: new_parser_def split: option.splits)
  from ret r have np: "new_parser n data = Some (Inr p)" by simp
  note f = parse_fields [OF pr]
  note d = parse_objects_dom [OF pr]
  have ids: "n_id ` set (nodes (graph p)) = actionId ` set (actions p)"
    using new_parser_ids [OF np] by (metis list.set_map)
  have closed: "source e \<in> actionId ` set (actions p) \<and> target e \<in> actionId ` set (actions p)"
    if "e \<in> set (edges (graph p))" for e
    using np that by (rule new_parser_edges_closed)
  have table: "key (actionId a) \<in> dom (objects p)"
    if a: "a \<in> set (actions p)" and t: "fmt = AttackFlow \<longrightarrow> truthy (o_id a)" for a
  proof (cases fmt)
    case AttackFlow
    with a f(4) have "a \<in> set (objs_of data)" by simp
    then have "key (o_id a) \<in> dom (objects p)"
      unfolding d AttackFlow by simp
    with t AttackFlow show ?thesis
      by (simp add: actionId_truthy)
  next
    case AFB
    with a f(4) obtain obj where obj: "obj \<in> set (objs_of data)" "has_tag ''action'' obj"
      "a = afb_action obj"
      by auto
    then have "key (o_instance obj) \<in> dom (objects p)"
      unfolding d AFB by simp
    with obj(3) show ?thesis by simp
  qed
  have inTable: "key (source e) \<in> dom (objects p) \<and> key (target e) \<in> dom (objects p)"
    if e: "e \<in> set (edges (graph p))"
      and t: "\<forall>a \<in> set (actions p). fmt = AttackFlow \<longrightarrow> truthy (o_id a)" for e
  proof -
    from closed [OF e] obtain a b where "a \<in> set (actions p)" "source e = actionId a"
      "b \<in> set (actions p)" "target e = actionId b"
      by blast
    with t table [of a] table [of b] show ?thesis by simp
  qed
  have "\<forall>e \<in> set (edges (graph p)).
          source e \<in> n_id ` set (nodes (graph p)) \<and> target e \<in> n_id ` set (nodes (graph p))"
    unfolding ids using closed by blast
  with r inTable show "\<exists>p. r = Inr p
      \<and> (\<forall>e \<in> set (edges (graph p)).
            source e \<in> n_id ` set (nodes (graph p)) \<and> target e \<in> n_id ` set (nodes (graph p)))
      \<and> ((\<forall>a \<in> set (actions p). fmt = AttackFlow \<longrightarrow> truthy (o_id a)) \<longrightarrow>
          (\<forall>e \<in> set (edges (graph p)).
             key (source e) \<in> dom (objects p) \<and> key (target e) \<in> dom (objects p)))"
    by blast
qed

theorem edges_connect_nodes_witness:
  "\<exists>p. new_parser 1 dangling_doc = Some (Inr p)
     \<and> edges (graph p) = [edgeOf (Some ''a'') (Some ''b'')]
     \<and> Some ''a'' \<in> n_id ` set (nodes (graph p))
     \<and> Some ''b'' \<in> n_id ` set (nodes (graph p))
     \<and> ''a'' \<in> dom (objects p) \<and> ''b'' \<in> dom (objects p)
     \<and> objects p ''yy'' = None \<and> objects p ''zz'' = None"
proof -
  have d: "detectFormat dangling_doc = Inr AttackFlow"
    by code_simp
  note inst = edges_connect_nodes [OF d, of condition_rank]
  have rk: "ranked condition_rank (objs_of dangling_doc)"
    by code_simp
  have "sum_list (map condition_rank (objs_of dangling_doc)) = 0"
    by code_simp
  with inst rk obtain r where r: "new_parser 1 dangling_doc = Some r"
    by auto
  with inst obtain p where p: "r = Inr p"
    and closed: "\<forall>e \<in> set (edges (graph p)).
        source e \<in> n_id ` set (nodes (graph p)) \<and> target e \<in> n_id ` set (nodes (graph p))"
    and table: "(\<forall>a \<in> set (actions p). AttackFlow = AttackFlow \<longrightarrow> truthy (o_id a)) \<longrightarrow>
        (\<forall>e \<in> set (edges (graph p)).
           key (source e) \<in> dom (objects p) \<and> key (target e) \<in> dom (objects p))"
    by blast
  from r p have np: "new_parser 1 dangling_doc = Some (Inr p)" by simp
  note b = built_eq [OF np]
  have "map_option (\<lambda>p. (edges (graph p), actions p, objects p ''yy'', objects p ''zz''))
          (built (new_parser 1 dangling_doc))
      = Some ([edgeOf (Some ''a'') (Some ''b'')],
              [(stix_action ''a'')\<lparr>o_effect_refs := Some [''b'', ''zz'']\<rparr>, stix_action ''b''],
              None, None)"
    by code_simp
  then have e: "edges (graph p) = [edgeOf (Some ''a'') (Some ''b'')]"
    and acts: "actions p = [(stix_action ''a'')\<lparr>o_effect_refs := Some [''b'', ''zz'']\<rparr>,
                            stix_action ''b'']"
    and none: "objects p ''yy'' = None" "objects p ''zz'' = None"
    unfolding b by simp_all
  have t: "\<forall>a \<in> set (actions p). AttackFlow = AttackFlow \<longrightarrow> truthy (o_id a)"
    unfolding acts by (simp add: stix_action_def truthy_def)
  from closed e have "source (edgeOf (Some ''a'') (Some ''b'')) \<in> n_id ` set (nodes (graph p))"
    "target (edgeOf (Some ''a'') (Some ''b'')) \<in> n_id ` set (nodes (graph p))"
    by simp_all
  moreover from table t e have "key (source (edgeOf (Some ''a'') (Some ''b''))) \<in> dom (objects p)"
    "key (target (edgeOf (Some ''a'') (Some ''b''))) \<in> dom (objects p)"
    by simp_all
  ultimately show ?thesis
    using np e none by (simp add: edgeOf_def key_def)
qed

section \<open>Sequencing\<close>

lemma distinct_map_append:
  assumes "distinct (map f xs)" "distinct (map f ys)"
    and "\<And>x y. x \<in> set xs \<Longrightarrow> y \<in> set ys \<Longrightarrow> f x \<noteq> f y"
  shows "distinct (map f (xs @ ys))"
  using assms by (induction xs) auto

lemma defined_append [simp]: "defined (xs @ ys) = defined xs @ defined ys"
  by (induction xs rule: defined.induct) simp_all

lemma extends_refl: "extends nm st st"
  by (simp add: extends_def)

lemma extends_trans:
  assumes ids: "nm_ids nm" and a: "extends nm s t" and b: "extends nm t u"
  shows "extends nm s u"
proof -
  from a obtain p1 where p1: "sequence t = p1 @ sequence s" "distinct (map n_id (defined p1))"
    "set (defined p1) = {n. \<exists>k \<in> visited t - visited s. nm k = Some n}"
    and st: "visited s \<subseteq> visited t"
    by (auto simp: extends_def)
  from b obtain p2 where p2: "sequence u = p2 @ sequence t" "distinct (map n_id (defined p2))"
    "set (defined p2) = {n. \<exists>k \<in> visited u - visited t. nm k = Some n}"
    and tu: "visited t \<subseteq> visited u"
    by (auto simp: extends_def)
  have id1: "n_id n \<in> visited t - visited s" if "n \<in> set (defined p1)" for n
    using that p1(3) ids by (auto simp: nm_ids_def)
  have id2: "n_id n \<in> visited u - visited t" if "n \<in> set (defined p2)" for n
    using that p2(3) ids by (auto simp: nm_ids_def)
  have "n_id a \<noteq> n_id b" if "a \<in> set (defined p2)" "b \<in> set (defined p1)" for a b
    using id1 [OF that(2)] id2 [OF that(1)] by auto
  with p2(2) p1(2) have "distinct (map n_id (defined p2 @ defined p1))"
    by (rule distinct_map_append)
  then have "distinct (map n_id (defined (p2 @ p1)))"
    by simp
  moreover have "set (defined (p2 @ p1)) = {n. \<exists>k \<in> visited u - visited s. nm k = Some n}"
    using p1(3) p2(3) st tu by auto
  moreover have "sequence u = (p2 @ p1) @ sequence s"
    using p1(1) p2(1) by simp
  ultimately show ?thesis
    unfolding extends_def using st tu by blast
qed

lemma extends_visited: "extends nm s t \<Longrightarrow> visited s \<subseteq> visited t"
  by (simp add: extends_def)

lemma visit_extends:
  assumes ids: "nm_ids nm"
  shows "visit k nm nodeId st = Some st' \<Longrightarrow> extends nm st st' \<and> nodeId \<in> visited st'"
proof (induction k arbitrary: nodeId st st')
  case 0
  then show ?case by simp
next
  case (Suc k)
  show ?case
  proof (cases "nodeId \<in> visited st")
    case True
    with Suc.prems show ?thesis by (simp add: extends_refl)
  next
    case False
    let ?st1 = "st\<lparr>visited := insert nodeId (visited st)\<rparr>"
    show ?thesis
    proof (cases "nm nodeId")
      case None
      with Suc.prems False have "st' = ?st1\<lparr>sequence := None # sequence st\<rparr>"
        by (simp add: Let_def)
      with None show ?thesis
        by (auto simp: extends_def intro!: exI [of _ "[None]"])
    next
      case (Some node)
      with Suc.prems False obtain st2 where
        st2: "forEachOpt (visit k nm) (n_children node) ?st1 = Some st2"
        and st': "st' = st2\<lparr>sequence := Some node # sequence st2\<rparr>"
        by (auto simp: Let_def split: option.splits)
      have e12: "extends nm ?st1 st2"
        by (rule forEachOpt_rel [OF st2])
          (auto dest: Suc.IH intro: extends_refl extends_trans [OF ids])
      then obtain pre where pre: "sequence st2 = pre @ sequence st"
        "distinct (map n_id (defined pre))"
        "set (defined pre) = {n. \<exists>k \<in> visited st2 - insert nodeId (visited st). nm k = Some n}"
        and v: "insert nodeId (visited st) \<subseteq> visited st2"
        by (auto simp: extends_def)
      from ids Some have nid: "n_id node = nodeId" by (simp add: nm_ids_def)
      have fresh: "n_id n \<noteq> nodeId" if "n \<in> set (defined pre)" for n
        using that pre(3) ids by (auto simp: nm_ids_def)
      have "sequence st' = (Some node # pre) @ sequence st"
        using st' pre(1) by simp
      moreover have "n_id a \<noteq> n_id b" if "a \<in> set [node]" "b \<in> set (defined pre)" for a b
        using fresh [OF that(2)] that(1) nid by simp
      with _ pre(2) have "distinct (map n_id ([node] @ defined pre))"
        by (rule distinct_map_append) simp
      then have "distinct (map n_id (defined (Some node # pre)))"
        by simp
      moreover have "set (defined (Some node # pre)) =
          {n. \<exists>k \<in> visited st' - visited st. nm k = Some n}"
        using pre(3) v False Some st' by auto
      moreover have "visited st \<subseteq> visited st'" "nodeId \<in> visited st'"
        using v st' by auto
      ultimately show ?thesis
        unfolding extends_def by blast
    qed
  qed
qed

lemma seqNodeMap_Some:
  "seqNodeMap ns k = Some n \<Longrightarrow> n \<in> set ns \<and> n_id n = k"
  by (auto simp: seqNodeMap_def dest!: map_of_SomeD)

lemma map_of_key_find:
  "map_of (map (\<lambda>n. (f n, n)) xs) k = find (\<lambda>n. f n = k) xs"
  by (induction xs) auto

lemma seqNodeMap_lastWithId: "seqNodeMap ns k = lastWithId ns k"
  by (simp add: seqNodeMap_def lastWithId_def rev_map map_of_key_find)

lemma lastWithId_snoc:
  "lastWithId (ns @ [n]) i = (if n_id n = i then Some n else lastWithId ns i)"
  by (simp add: lastWithId_def)

lemma lastWithId_Some:
  "lastWithId ns i = Some n \<Longrightarrow>
     \<exists>pre post. ns = pre @ n # post \<and> n_id n = i \<and> (\<forall>m \<in> set post. n_id m \<noteq> i)"
proof (induction ns rule: rev_induct)
  case Nil
  then show ?case by (simp add: lastWithId_def)
next
  case (snoc x xs)
  show ?case
  proof (cases "n_id x = i")
    case True
    with snoc.prems have "x = n" by (simp add: lastWithId_snoc)
    with True have "xs @ [x] = xs @ n # [] \<and> n_id n = i \<and> (\<forall>m \<in> set []. n_id m \<noteq> i)"
      by simp
    then show ?thesis by blast
  next
    case False
    with snoc.prems have "lastWithId xs i = Some n" by (simp add: lastWithId_snoc)
    from snoc.IH [OF this] obtain pre post where
      "xs = pre @ n # post" "n_id n = i" "\<forall>m \<in> set post. n_id m \<noteq> i"
      by blast
    with False have "xs @ [x] = pre @ n # (post @ [x]) \<and> n_id n = i
      \<and> (\<forall>m \<in> set (post @ [x]). n_id m \<noteq> i)"
      by simp
    then show ?thesis by blast
  qed
qed

lemma nm_ids_seqNodeMap: "nm_ids (seqNodeMap ns)"
  by (auto simp: nm_ids_def dest: seqNodeMap_Some)

lemma dom_seqNodeMap: "dom (seqNodeMap ns) = n_id ` set ns"
  by (simp add: seqNodeMap_def dom_map_of_conv_image_fst image_image)

lemma seqNodeMap_distinct:
  assumes "distinct (map n_id ns)" "n \<in> set ns"
  shows "seqNodeMap ns (n_id n) = Some n"
  unfolding seqNodeMap_def
  by (rule map_of_is_SomeI) (use assms in \<open>auto simp: rev_map [symmetric] comp_def\<close>)

lemma forEachOpt_total_inv:
  assumes "\<And>x t. x \<in> set xs \<Longrightarrow> P t \<Longrightarrow> \<exists>t'. f x t = Some t' \<and> P t'" and "P s"
  shows "\<exists>s'. forEachOpt f xs s = Some s' \<and> P s'"
  using assms
proof (induction xs arbitrary: s)
  case Nil
  then show ?case by simp
next
  case (Cons x xs)
  from Cons.prems obtain t where t: "f x s = Some t" "P t"
    by (meson list.set_intros(1))
  from Cons.IH [OF _ t(2)] Cons.prems(1) have "\<exists>s'. forEachOpt f xs t = Some s' \<and> P s'"
    by (meson list.set_intros(2))
  with t(1) show ?case by simp
qed

lemma card_unvisited_mono:
  assumes "finite D" "V \<subseteq> V'"
  shows "card (D - V') \<le> card (D - V)"
  using assms by (intro card_mono) auto

lemma visit_total:
  assumes fin: "finite (dom nm)" and ids: "nm_ids nm"
  shows "card (dom nm - visited st) < k \<Longrightarrow> \<exists>st'. visit k nm nodeId st = Some st'"
proof (induction k arbitrary: nodeId st)
  case 0
  then show ?case by simp
next
  case (Suc k)
  show ?case
  proof (cases "nodeId \<in> visited st")
    case True
    then show ?thesis by simp
  next
    case False
    let ?st1 = "st\<lparr>visited := insert nodeId (visited st)\<rparr>"
    show ?thesis
    proof (cases "nm nodeId")
      case None
      with False show ?thesis by (simp add: Let_def)
    next
      case (Some node)
      with False have "nodeId \<in> dom nm - visited st" by auto
      then have "card (dom nm - insert nodeId (visited st)) < card (dom nm - visited st)"
        using fin by (intro psubset_card_mono) auto
      with Suc.prems have p1: "card (dom nm - visited ?st1) < k" by simp
      have step: "\<exists>t'. visit k nm c t = Some t' \<and> card (dom nm - visited t') < k"
        if "card (dom nm - visited t) < k" for c t
      proof -
        from Suc.IH [OF that] obtain t' where t': "visit k nm c t = Some t'" by blast
        from visit_extends [OF ids t'] have "visited t \<subseteq> visited t'"
          by (simp add: extends_def)
        from card_unvisited_mono [OF fin this] that t' show ?thesis by auto
      qed
      have "\<exists>st2. forEachOpt (visit k nm) (n_children node) ?st1 = Some st2
          \<and> card (dom nm - visited st2) < k"
        by (rule forEachOpt_total_inv [where P = "\<lambda>t. card (dom nm - visited t) < k"])
          (use step p1 in auto)
      with False Some show ?thesis by (auto simp: Let_def)
    qed
  qed
qed

lemma visit_Suc:
  "visit k nm nodeId st = Some st' \<Longrightarrow> visit (Suc k) nm nodeId st = Some st'"
proof (induction k arbitrary: nodeId st st')
  case 0
  then show ?case by simp
next
  case (Suc k)
  show ?case
  proof (cases "nodeId \<in> visited st")
    case True
    with Suc.prems show ?thesis by simp
  next
    case False
    let ?st1 = "st\<lparr>visited := insert nodeId (visited st)\<rparr>"
    show ?thesis
    proof (cases "nm nodeId")
      case None
      with Suc.prems False show ?thesis by (simp add: Let_def)
    next
      case (Some node)
      with Suc.prems False obtain st2 where
        st2: "forEachOpt (visit k nm) (n_children node) ?st1 = Some st2"
        and st': "st' = st2\<lparr>sequence := Some node # sequence st2\<rparr>"
        by (auto simp: Let_def split: option.splits)
      from st2 have "forEachOpt (visit (Suc k) nm) (n_children node) ?st1 = Some st2"
        by (rule forEachOpt_mono) (rule Suc.IH)
      with False Some st' show ?thesis
        by (subst visit.simps(2)) (simp add: Let_def del: visit.simps)
    qed
  qed
qed

lemma visit_mono:
  "visit k nm nodeId st = Some st' \<Longrightarrow> k \<le> m \<Longrightarrow> visit m nm nodeId st = Some st'"
  by (induction m) (auto simp: le_Suc_eq dest: visit_Suc simp del: visit.simps)

lemma visit_like_extends:
  assumes "visit_like k nm f" "nm_ids nm" "forEachOpt f xs st = Some st'"
  shows "extends nm st st'"
proof (rule forEachOpt_rel [OF assms(3)])
  fix y and t t' :: vstate
  assume "f y t = Some t'"
  with assms(1) have "t' = t \<or> (\<exists>i. visit k nm i t = Some t')"
    unfolding visit_like_def by (metis option.inject)
  then show "extends nm t t'"
    by (auto simp: extends_refl dest: visit_extends [OF assms(2)])
qed (auto intro: extends_refl extends_trans [OF assms(2)])

lemma visit_like_total:
  assumes like: "visit_like k nm f" and fin: "finite (dom nm)" and ids: "nm_ids nm"
    and card: "card (dom nm - visited st) < k"
  shows "\<exists>st'. forEachOpt f xs st = Some st' \<and> card (dom nm - visited st') < k"
proof (rule forEachOpt_total_inv [where P = "\<lambda>t. card (dom nm - visited t) < k", OF _ card])
  fix x and t :: vstate
  assume t: "card (dom nm - visited t) < k"
  from like have "f x t = Some t \<or> (\<exists>i. f x t = visit k nm i t)"
    by (simp add: visit_like_def)
  then show "\<exists>t'. f x t = Some t' \<and> card (dom nm - visited t') < k"
  proof
    assume "f x t = Some t"
    with t show ?thesis by simp
  next
    assume "\<exists>i. f x t = visit k nm i t"
    then obtain i where i: "f x t = visit k nm i t" ..
    from visit_total [OF fin ids t] obtain t' where t': "visit k nm i t = Some t'" by blast
    from visit_extends [OF ids t'] have "visited t \<subseteq> visited t'"
      by (simp add: extends_def)
    from card_unvisited_mono [OF fin this] t have "card (dom nm - visited t') < k" by simp
    with i t' show ?thesis by simp
  qed
qed

lemma visit_like_startRefs:
  "visit_like k nm (\<lambda>startRef st'. case objs startRef of
       None \<Rightarrow> Some st'
     | Some startNode \<Rightarrow>
         if has_type ''attack-action'' startNode then visit k nm (Some startRef) st'
         else Some st')"
  unfolding visit_like_def by (auto split: option.splits simp del: visit.simps)

lemma visit_like_roots: "visit_like k nm (\<lambda>node. visit k nm (n_id node))"
  unfolding visit_like_def by blast

lemma visit_like_remaining:
  "visit_like k nm (\<lambda>node st'. if n_id node \<notin> visited st' then visit k nm (n_id node) st'
                                 else Some st')"
  unfolding visit_like_def by (auto simp del: visit.simps)

lemma phases_extend:
  assumes "nm_ids nm"
  shows "visitStartRefs k p nm st = Some st' \<Longrightarrow> extends nm st st'"
    and "visitRoots k p nm st = Some st' \<Longrightarrow> extends nm st st'"
    and "visitRemaining k p nm st = Some st' \<Longrightarrow> extends nm st st'"
  unfolding visitStartRefs_def visitRoots_def visitRemaining_def Let_def
  by (auto simp: extends_refl split: option.splits if_splits
      dest: visit_like_extends [OF visit_like_startRefs assms]
        visit_like_extends [OF visit_like_roots assms]
        visit_like_extends [OF visit_like_remaining assms])

lemma phases_total:
  assumes "finite (dom nm)" "nm_ids nm" "card (dom nm - visited st) < k"
  shows "\<exists>st'. visitStartRefs k p nm st = Some st' \<and> card (dom nm - visited st') < k"
    and "\<exists>st'. visitRoots k p nm st = Some st' \<and> card (dom nm - visited st') < k"
    and "\<exists>st'. visitRemaining k p nm st = Some st' \<and> card (dom nm - visited st') < k"
  unfolding visitStartRefs_def visitRoots_def visitRemaining_def Let_def
  using assms(3)
    visit_like_total [OF visit_like_startRefs assms]
    visit_like_total [OF visit_like_roots assms]
    visit_like_total [OF visit_like_remaining assms]
  by (auto split: option.splits)

lemma phases_mono:
  assumes "k \<le> m"
  shows "visitStartRefs k p nm st = Some st' \<Longrightarrow> visitStartRefs m p nm st = Some st'"
    and "visitRoots k p nm st = Some st' \<Longrightarrow> visitRoots m p nm st = Some st'"
    and "visitRemaining k p nm st = Some st' \<Longrightarrow> visitRemaining m p nm st = Some st'"
proof -
  note vm = visit_mono [OF _ assms]
  show "visitStartRefs m p nm st = Some st'" if "visitStartRefs k p nm st = Some st'"
  proof (cases "attackFlow p")
    case None
    with that show ?thesis by (simp add: visitStartRefs_def)
  next
    case (Some flow)
    show ?thesis
    proof (cases "o_start_refs flow")
      case None
      with that Some show ?thesis by (simp add: visitStartRefs_def)
    next
      case (Some refs)
      with that \<open>attackFlow p = Some flow\<close> have
        "forEachOpt (\<lambda>startRef st'. case objects p startRef of None \<Rightarrow> Some st'
            | Some startNode \<Rightarrow> if has_type ''attack-action'' startNode
                then visit k nm (Some startRef) st' else Some st') refs st = Some st'"
        by (simp add: visitStartRefs_def)
      then have
        "forEachOpt (\<lambda>startRef st'. case objects p startRef of None \<Rightarrow> Some st'
            | Some startNode \<Rightarrow> if has_type ''attack-action'' startNode
                then visit m nm (Some startRef) st' else Some st') refs st = Some st'"
        by (rule forEachOpt_mono) (auto split: option.splits if_splits dest: vm simp del: visit.simps)
      with Some \<open>attackFlow p = Some flow\<close> show ?thesis
        by (simp add: visitStartRefs_def)
    qed
  qed
  show "visitRoots m p nm st = Some st'" if "visitRoots k p nm st = Some st'"
  proof (cases "format p = AFB \<or> sequence st = []")
    case False
    with that show ?thesis by (simp add: visitRoots_def)
  next
    case True
    let ?xs = "filter (\<lambda>n. n_id n \<notin> target ` set (edges (graph p))) (nodes (graph p))"
    from that True have "forEachOpt (\<lambda>node. visit k nm (n_id node)) ?xs st = Some st'"
      by (simp add: visitRoots_def Let_def)
    then have "forEachOpt (\<lambda>node. visit m nm (n_id node)) ?xs st = Some st'"
      by (rule forEachOpt_mono) (rule vm)
    with True show ?thesis by (simp add: visitRoots_def Let_def)
  qed
  show "visitRemaining m p nm st = Some st'" if "visitRemaining k p nm st = Some st'"
    using that unfolding visitRemaining_def
    by (rule forEachOpt_mono) (auto split: if_splits dest: vm simp del: visit.simps)
qed

lemma getActionSequence_mono:
  assumes "getActionSequence k p = Some out" "k \<le> m"
  shows "getActionSequence m p = Some out"
  using assms(1) unfolding getActionSequence_def Let_def
  by (auto split: option.splits dest!: phases_mono [OF assms(2)])

lemma remaining_covers:
  assumes ids: "nm_ids nm"
  shows "forEachOpt (\<lambda>node st'. if n_id node \<notin> visited st' then visit k nm (n_id node) st'
                                   else Some st') xs st = Some st'
    \<Longrightarrow> n_id ` set xs \<subseteq> visited st'"
proof (induction xs arbitrary: st)
  case Nil
  then show ?case by simp
next
  case (Cons x xs)
  let ?f = "\<lambda>node st'. if n_id node \<notin> visited st' then visit k nm (n_id node) st' else Some st'"
  from Cons.prems obtain t where t: "?f x st = Some t" "forEachOpt ?f xs t = Some st'"
    by (auto split: option.splits simp del: visit.simps)
  from t(1) have "n_id x \<in> visited t"
    by (auto split: if_splits dest: visit_extends [OF ids] simp del: visit.simps)
  moreover from visit_like_extends [OF visit_like_remaining ids t(2)]
  have "visited t \<subseteq> visited st'"
    by (simp add: extends_def)
  moreover note Cons.IH [OF t(2)]
  ultimately show ?case by auto
qed

text \<open>
  Claim C2 as stated fails on a graph in which two nodes have the same id:
  \<^verbatim>\<open>getActionSequence\<close> looks nodes up by id, and the \<^verbatim>\<open>Map\<close> it builds keeps
  the later node only. The graph built from \<open>duplicate_id_doc\<close> has the nodes with
  sequence numbers 0 and 1; the output holds the node 1 alone.
\<close>

theorem getActionSequence_drops_node_with_duplicate_id:
  "map_option (\<lambda>p. (map n_sequence (nodes (graph p)),
                     map_option (map n_sequence) (getActionSequence 3 p)))
     (built (new_parser 1 duplicate_id_doc))
   = Some ([0, 1], Some [1])"
  by code_simp

text \<open>
  Claim C2, amended. For every parser state, whatever its edges and child lists (cycles
  included) and whatever the start references: \<^verbatim>\<open>getActionSequence\<close> terminates,
  with one and the same output for every bound above the number of nodes (the output is
  a function of the parser state, which the call does not change); the output holds
  nodes of the graph only, and exactly one node for each node id of the graph: the last
  node of the graph's node list that carries this id (\<open>lastWithId\<close>, so of several nodes
  sharing an id only the last is returned). When the ids of the nodes are pairwise
  distinct, the output therefore holds every node of the graph exactly once.
\<close>

theorem getActionSequence_visits_every_id:
  "\<exists>out. (\<forall>k > length (nodes (graph p)). getActionSequence k p = Some out)
     \<and> distinct (map n_id out)
     \<and> n_id ` set out = n_id ` set (nodes (graph p))
     \<and> set out \<subseteq> set (nodes (graph p))
     \<and> (\<forall>n \<in> set out. lastWithId (nodes (graph p)) (n_id n) = Some n)
     \<and> (distinct (map n_id (nodes (graph p))) \<longrightarrow>
          distinct out \<and> set out = set (nodes (graph p)))"
proof -
  let ?ns = "nodes (graph p)"
  let ?nm = "seqNodeMap ?ns"
  let ?k = "Suc (length ?ns)"
  let ?st0 = "\<lparr>visited = {}, sequence = []\<rparr>"
  have ids: "nm_ids ?nm" by (rule nm_ids_seqNodeMap)
  have fin: "finite (dom ?nm)" by (simp add: dom_seqNodeMap)
  have "card (dom ?nm) \<le> length ?ns"
    unfolding dom_seqNodeMap by (metis card_image_le card_length le_trans List.finite_set)
  then have c0: "card (dom ?nm - visited ?st0) < ?k" by simp
  from phases_total(1) [OF fin ids c0] obtain st1 where
    st1: "visitStartRefs ?k p ?nm ?st0 = Some st1" and c1: "card (dom ?nm - visited st1) < ?k"
    by blast
  from phases_total(2) [OF fin ids c1] obtain st2 where
    st2: "visitRoots ?k p ?nm st1 = Some st2" and c2: "card (dom ?nm - visited st2) < ?k"
    by blast
  from phases_total(3) [OF fin ids c2] obtain st3 where
    st3: "visitRemaining ?k p ?nm st2 = Some st3"
    by blast
  let ?out = "defined (sequence st3)"
  from st1 st2 st3 have run: "getActionSequence ?k p = Some ?out"
    by (simp add: getActionSequence_def Let_def)
  have all: "getActionSequence k p = Some ?out" if "length ?ns < k" for k
    using run by (rule getActionSequence_mono) (use that in simp)
  have "extends ?nm ?st0 st3"
    using phases_extend(1) [OF ids st1] phases_extend(2) [OF ids st2]
      phases_extend(3) [OF ids st3]
    by (blast intro: extends_trans [OF ids])
  then have dist: "distinct (map n_id ?out)"
    and out: "set ?out = {n. \<exists>k \<in> visited st3. ?nm k = Some n}"
    by (auto simp: extends_def)
  from st3 have cover: "n_id ` set ?ns \<subseteq> visited st3"
    unfolding visitRemaining_def by (rule remaining_covers [OF ids])
  have sub: "set ?out \<subseteq> set ?ns"
    unfolding out by (auto dest: seqNodeMap_Some)
  have last: "\<forall>n \<in> set ?out. lastWithId ?ns (n_id n) = Some n"
  proof
    fix n assume "n \<in> set ?out"
    then obtain i where n: "?nm i = Some n" unfolding out by blast
    from seqNodeMap_Some [OF n] have "n_id n = i" by simp
    with n show "lastWithId ?ns (n_id n) = Some n"
      by (simp add: seqNodeMap_lastWithId)
  qed
  have idset: "n_id ` set ?out = n_id ` set ?ns"
  proof
    show "n_id ` set ?out \<subseteq> n_id ` set ?ns" using sub by auto
    show "n_id ` set ?ns \<subseteq> n_id ` set ?out"
    proof
      fix i assume i: "i \<in> n_id ` set ?ns"
      then have "i \<in> dom ?nm" by (simp add: dom_seqNodeMap)
      then obtain n where n: "?nm i = Some n" by auto
      with cover i have "n \<in> set ?out" unfolding out by auto
      moreover from seqNodeMap_Some [OF n] have "n_id n = i" by simp
      ultimately show "i \<in> n_id ` set ?out" by auto
    qed
  qed
  have full: "distinct ?out \<and> set ?out = set ?ns" if d: "distinct (map n_id ?ns)"
  proof -
    have "n \<in> set ?out" if "n \<in> set ?ns" for n
      using seqNodeMap_distinct [OF d that] cover that unfolding out by auto
    with sub have "set ?out = set ?ns" by auto
    moreover from dist have "distinct ?out" by (simp add: distinct_map)
    ultimately show ?thesis by simp
  qed
  from all dist idset sub last full show ?thesis by blast
qed

theorem getActionSequence_visits_every_id_witness:
  "(\<exists>p out. new_parser 1 cycle_doc = Some (Inr p)
      \<and> edges (graph p) = [edgeOf (Some ''a'') (Some ''b''), edgeOf (Some ''b'') (Some ''a'')]
      \<and> getActionSequence 3 p = Some out
      \<and> distinct out \<and> set out = set (nodes (graph p)))
   \<and> (\<exists>q n. new_parser 1 duplicate_id_doc = Some (Inr q)
      \<and> map n_sequence (nodes (graph q)) = [0, 1]
      \<and> getActionSequence 3 q = Some [n]
      \<and> lastWithId (nodes (graph q)) (Some ''a'') = Some n
      \<and> n_sequence n = 1)"
proof -
  have "\<not> Option.is_none (built (new_parser 1 cycle_doc))"
    by code_simp
  then obtain p where p: "new_parser 1 cycle_doc = Some (Inr p)"
    by (rule built_SomeE)
  note b = built_eq [OF p]
  have "map_option (\<lambda>p. (edges (graph p), map n_id (nodes (graph p)))) (built (new_parser 1 cycle_doc))
      = Some ([edgeOf (Some ''a'') (Some ''b''), edgeOf (Some ''b'') (Some ''a'')],
              [Some ''a'', Some ''b''])"
    by code_simp
  then have e: "edges (graph p) = [edgeOf (Some ''a'') (Some ''b''), edgeOf (Some ''b'') (Some ''a'')]"
    and i: "map n_id (nodes (graph p)) = [Some ''a'', Some ''b'']"
    unfolding b by simp_all
  from i have d: "distinct (map n_id (nodes (graph p)))"
    by simp
  from i have "length (map n_id (nodes (graph p))) = 2"
    by simp
  then have l: "length (nodes (graph p)) < 3"
    by simp
  from getActionSequence_visits_every_id [of p] obtain out where
    "\<forall>k > length (nodes (graph p)). getActionSequence k p = Some out"
    "distinct (map n_id (nodes (graph p))) \<longrightarrow> distinct out \<and> set out = set (nodes (graph p))"
    by blast
  with d l have "getActionSequence 3 p = Some out" "distinct out" "set out = set (nodes (graph p))"
    by blast+
  with p e have first: "\<exists>p out. new_parser 1 cycle_doc = Some (Inr p)
      \<and> edges (graph p) = [edgeOf (Some ''a'') (Some ''b''), edgeOf (Some ''b'') (Some ''a'')]
      \<and> getActionSequence 3 p = Some out
      \<and> distinct out \<and> set out = set (nodes (graph p))"
    by blast
  have "\<not> Option.is_none (built (new_parser 1 duplicate_id_doc))"
    by code_simp
  then obtain q where q: "new_parser 1 duplicate_id_doc = Some (Inr q)"
    by (rule built_SomeE)
  note c = built_eq [OF q]
  have "map_option (\<lambda>p. (map n_id (nodes (graph p)), map n_sequence (nodes (graph p)),
            map_option (map n_sequence) (getActionSequence 3 p)))
          (built (new_parser 1 duplicate_id_doc))
      = Some ([Some ''a'', Some ''a''], [0, 1], Some [1])"
    by code_simp
  then have qi: "map n_id (nodes (graph q)) = [Some ''a'', Some ''a'']"
    and qs: "map n_sequence (nodes (graph q)) = [0, 1]"
    and qo: "map_option (map n_sequence) (getActionSequence 3 q) = Some [1]"
    unfolding c by simp_all
  from qi have "length (map n_id (nodes (graph q))) = 2"
    by simp
  then have ql: "length (nodes (graph q)) < 3"
    by simp
  from getActionSequence_visits_every_id [of q] obtain out' where
    o1: "\<forall>k > length (nodes (graph q)). getActionSequence k q = Some out'"
    and o2: "n_id ` set out' = n_id ` set (nodes (graph q))"
    and o3: "\<forall>n \<in> set out'. lastWithId (nodes (graph q)) (n_id n) = Some n"
    by blast
  from o1 ql have run: "getActionSequence 3 q = Some out'"
    by blast
  with qo have "map n_sequence out' = [1]"
    by simp
  then obtain n where n: "out' = [n]" "n_sequence n = 1"
    by (cases out') auto
  have "n_id ` set (nodes (graph q)) = set (map n_id (nodes (graph q)))"
    by simp
  also have "\<dots> = {Some ''a''}"
    unfolding qi by simp
  finally have "n_id ` set out' = {Some ''a''}"
    using o2 by simp
  with n have "n_id n = Some ''a''"
    by simp
  with o3 n have "lastWithId (nodes (graph q)) (Some ''a'') = Some n"
    by auto
  with q qs run n have second: "\<exists>q n. new_parser 1 duplicate_id_doc = Some (Inr q)
      \<and> map n_sequence (nodes (graph q)) = [0, 1]
      \<and> getActionSequence 3 q = Some [n]
      \<and> lastWithId (nodes (graph q)) (Some ''a'') = Some n
      \<and> n_sequence n = 1"
    by auto
  from first second show ?thesis by (rule conjI)
qed

end
